theory Spec2Isabelle
  imports Complex_Main "HOL-Library.Word" "HOL-Library.Sublist"
begin

unbundle bit_operations_syntax

section \<open>Strings of the worker: UTF-16 code units\<close>

text \<open>
  The parser worker (\<^verbatim>\<open>src/workers/parse.worker.ts\<close>) reads a \<^verbatim>\<open>File\<close> as bytes and
  handles JavaScript strings, which are sequences of 16-bit code units. Literals of the
  source are ASCII; \<open>ascii\<close> turns an Isabelle string literal into code units (or into
  the bytes of its UTF-8 encoding, which are the same numbers).
\<close>

type_synonym byte = "8 word"
type_synonym cu = "16 word"
type_synonym jsstring = "cu list"

definition ascii :: "string \<Rightarrow> 'a::len word list" where
  "ascii s = map (\<lambda>c. of_nat (of_char c)) s"

definition LF :: cu where "LF = 0x0A"
definition CR :: cu where "CR = 0x0D"

text \<open>
  The character classes of the regular expressions of the source (none of them has the
  \<^verbatim>\<open>u\<close> flag): \<^verbatim>\<open>\s\<close> is WhiteSpace and LineTerminator of ECMAScript, the set that
  \<^verbatim>\<open>String.prototype.trim\<close> removes as well; \<^verbatim>\<open>\d\<close> is \<^verbatim>\<open>[0-9]\<close>; a word character
  (for \<^verbatim>\<open>\b\<close>) is \<^verbatim>\<open>[A-Za-z0-9_]\<close>.
\<close>

definition is_space :: "cu \<Rightarrow> bool" where
  "is_space c = ((0x09 \<le> c \<and> c \<le> 0x0D) \<or> c = 0x20 \<or> c = 0xA0 \<or> c = 0x1680
     \<or> (0x2000 \<le> c \<and> c \<le> 0x200A) \<or> c = 0x2028 \<or> c = 0x2029 \<or> c = 0x202F
     \<or> c = 0x205F \<or> c = 0x3000 \<or> c = 0xFEFF)"

definition is_digit :: "cu \<Rightarrow> bool" where
  "is_digit c = (0x30 \<le> c \<and> c \<le> 0x39)"

definition is_word :: "cu \<Rightarrow> bool" where
  "is_word c = ((0x41 \<le> c \<and> c \<le> 0x5A) \<or> (0x61 \<le> c \<and> c \<le> 0x7A) \<or> is_digit c \<or> c = 0x5F)"

text \<open>
  Case-insensitive matching (flag \<^verbatim>\<open>i\<close>) compares canonicalised code units; against the
  ASCII letters of the severity tokens this is ASCII upper-casing (a code unit of 128 or
  more never canonicalises to an ASCII one). \<^verbatim>\<open>toUpperCase\<close> on the matched text, which
  holds ASCII letters only, is the same map.
\<close>

definition canonicalize :: "cu \<Rightarrow> cu" where
  "canonicalize c = (if 0x61 \<le> c \<and> c \<le> 0x7A then c - 0x20 else c)"

definition toUpperCase :: "jsstring \<Rightarrow> jsstring" where
  "toUpperCase s = map canonicalize s"

definition trim :: "jsstring \<Rightarrow> jsstring" where
  "trim s = rev (dropWhile is_space (rev (dropWhile is_space s)))"

definition opt_hd :: "'a list \<Rightarrow> 'a option" where
  "opt_hd xs = (case xs of [] \<Rightarrow> None | x # _ \<Rightarrow> Some x)"

definition opt_last :: "'a list \<Rightarrow> 'a option" where
  "opt_last xs = opt_hd (rev xs)"

text \<open>\<^verbatim>\<open>lines.join("\n")\<close>\<close>

fun join_nl :: "jsstring list \<Rightarrow> jsstring" where
  "join_nl [] = []"
| "join_nl [l] = l"
| "join_nl (l # ls) = l @ LF # join_nl ls"

text \<open>
  \<^verbatim>\<open>bufferText.split(/\r?\n/)\<close>: scanning from the left, a line feed, together with a
  carriage return right before it, is a separator; every other code unit belongs to the
  current piece. The result is never empty.
\<close>

fun split_lines :: "jsstring \<Rightarrow> jsstring list" where
  "split_lines [] = [[]]"
| "split_lines (c # cs) =
     (if c = CR \<and> opt_hd cs = Some LF then [] # split_lines (tl cs)
      else if c = LF then [] # split_lines cs
      else (case split_lines cs of [] \<Rightarrow> [[c]] | l # ls \<Rightarrow> (c # l) # ls))"

text \<open>\<^verbatim>\<open>text.split("\n")\<close>, the split that counts the lines of an entry's text.\<close>

fun split_nl :: "jsstring \<Rightarrow> jsstring list" where
  "split_nl [] = [[]]"
| "split_nl (c # cs) =
     (if c = LF then [] # split_nl cs
      else (case split_nl cs of [] \<Rightarrow> [[c]] | l # ls \<Rightarrow> (c # l) # ls))"

section \<open>Classification of a line\<close>

text \<open>
  \<^verbatim>\<open>/\d{4}-\d{2}-\d{2}[T\s]\d{2}:\d{2}:\d{2}(?:\.\d+)?/\<close>: nineteen code units of fixed
  shape, then greedily a dot with at least one digit.
\<close>

datatype cls = Digit | Lit cu | TOrSpace

fun cls_ok :: "cls \<Rightarrow> cu \<Rightarrow> bool" where
  "cls_ok Digit c = is_digit c"
| "cls_ok (Lit d) c = (c = d)"
| "cls_ok TOrSpace c = (c = 0x54 \<or> is_space c)"

definition TIMESTAMP_SHAPE :: "cls list" where
  "TIMESTAMP_SHAPE =
     [Digit, Digit, Digit, Digit, Lit 0x2D, Digit, Digit, Lit 0x2D, Digit, Digit, TOrSpace,
      Digit, Digit, Lit 0x3A, Digit, Digit, Lit 0x3A, Digit, Digit]"

fun shape_here :: "cls list \<Rightarrow> jsstring \<Rightarrow> bool" where
  "shape_here [] s = True"
| "shape_here (p # ps) [] = False"
| "shape_here (p # ps) (c # cs) = (cls_ok p c \<and> shape_here ps cs)"

definition fraction_len :: "jsstring \<Rightarrow> nat" where
  "fraction_len s =
     (case s of
        [] \<Rightarrow> 0
      | c # r \<Rightarrow> if c = 0x2E \<and> takeWhile is_digit r \<noteq> [] then Suc (length (takeWhile is_digit r)) else 0)"

definition timestamp_here :: "jsstring \<Rightarrow> jsstring option" where
  "timestamp_here s =
     (if shape_here TIMESTAMP_SHAPE s
      then Some (take (length TIMESTAMP_SHAPE + fraction_len (drop (length TIMESTAMP_SHAPE) s)) s)
      else None)"

fun detectTimestamp :: "jsstring \<Rightarrow> jsstring option" where
  "detectTimestamp [] = None"
| "detectTimestamp (c # cs) =
     (case timestamp_here (c # cs) of Some m \<Rightarrow> Some m | None \<Rightarrow> detectTimestamp cs)"

text \<open>
  \<^verbatim>\<open>/\b(ERROR|WARN|WARNING|INFO|DEBUG|TRACE|FATAL)\b/i\<close>: at each position from the
  left, a word boundary, the first alternative (in the order written) that matches without
  regard to case and is followed by a word boundary. The result is the matched text in
  upper case.
\<close>

definition SEVERITY_TOKENS :: "jsstring list" where
  "SEVERITY_TOKENS =
     map ascii [''ERROR'', ''WARN'', ''WARNING'', ''INFO'', ''DEBUG'', ''TRACE'', ''FATAL'']"

definition is_word_opt :: "cu option \<Rightarrow> bool" where
  "is_word_opt x = (case x of None \<Rightarrow> False | Some c \<Rightarrow> is_word c)"

definition word_boundary :: "cu option \<Rightarrow> cu option \<Rightarrow> bool" where
  "word_boundary a b = (is_word_opt a \<noteq> is_word_opt b)"

definition token_here :: "jsstring \<Rightarrow> jsstring \<Rightarrow> bool" where
  "token_here tok s =
     (length tok \<le> length s
      \<and> map canonicalize (take (length tok) s) = map canonicalize tok
      \<and> word_boundary (opt_last (take (length tok) s)) (opt_hd (drop (length tok) s)))"

definition severity_here :: "cu option \<Rightarrow> jsstring \<Rightarrow> jsstring option" where
  "severity_here prev s =
     (if word_boundary prev (opt_hd s)
      then map_option (\<lambda>tok. take (length tok) s) (find (\<lambda>tok. token_here tok s) SEVERITY_TOKENS)
      else None)"

fun severity_from :: "cu option \<Rightarrow> jsstring \<Rightarrow> jsstring option" where
  "severity_from prev [] = None"
| "severity_from prev (c # cs) =
     (case severity_here prev (c # cs) of
        Some m \<Rightarrow> Some m
      | None \<Rightarrow> severity_from (Some c) cs)"

definition detectSeverity :: "jsstring \<Rightarrow> jsstring option" where
  "detectSeverity line = map_option toUpperCase (severity_from None line)"

text \<open>\<^verbatim>\<open>/^\s*\{/\<close>\<close>

definition isJsonStart :: "jsstring \<Rightarrow> bool" where
  "isJsonStart line = (opt_hd (dropWhile is_space line) = Some 0x7B)"

definition isEntryStart :: "jsstring \<Rightarrow> bool" where
  "isEntryStart line =
     (detectTimestamp line \<noteq> None \<or> detectSeverity line \<noteq> None \<or> isJsonStart line)"

text \<open>
  The four tests on the trimmed line: \<^verbatim>\<open>/^at\s/\<close>, \<^verbatim>\<open>/^Caused by/\<close>,
  \<^verbatim>\<open>/^Traceback/\<close>, \<^verbatim>\<open>/^File\s+"/\<close>.
\<close>

definition starts_at_ws :: "jsstring \<Rightarrow> bool" where
  "starts_at_ws t =
     (prefix (ascii ''at'') t \<and> (case drop 2 t of [] \<Rightarrow> False | w # _ \<Rightarrow> is_space w))"

definition starts_file_quote :: "jsstring \<Rightarrow> bool" where
  "starts_file_quote t =
     (prefix (ascii ''File'') t
      \<and> (case drop 4 t of
            [] \<Rightarrow> False
          | w # r \<Rightarrow> is_space w \<and> opt_hd (dropWhile is_space r) = Some 0x22))"

definition isContinuationLine :: "jsstring \<Rightarrow> bool" where
  "isContinuationLine line =
     (let trimmed = trim line in
      if trimmed = [] then True
      else (case line of [] \<Rightarrow> False | c # _ \<Rightarrow> is_space c)
           \<or> starts_at_ws trimmed
           \<or> prefix (ascii ''Caused by'') trimmed
           \<or> prefix (ascii ''Traceback'') trimmed
           \<or> starts_file_quote trimmed)"

section \<open>Entries and the grouping state machine\<close>

text \<open>\<^verbatim>\<open>LogEntry\<close> of \<^verbatim>\<open>src/lib/types.ts\<close>; an absent optional field is \<open>None\<close>, and
  the field \<^verbatim>\<open>text\<close> is written \<open>text'\<close>.\<close>

record LogEntry =
  lineStart :: nat
  lineEnd :: nat
  text' :: jsstring
  severity :: "jsstring option"
  timestamp :: "jsstring option"

text \<open>
  The messages the worker posts. The wall-clock field \<^verbatim>\<open>durationMs\<close> of the statistics
  is left out: it is the difference of two readings of \<^verbatim>\<open>performance.now()\<close> and
  nothing else depends on it. \<^verbatim>\<open>percent\<close> is the quotient of two byte counts, taken here
  over the reals.
\<close>

record progress_payload =
  p_bytesProcessed :: nat
  p_totalBytes :: nat
  p_percent :: real
  p_lines :: nat
  p_entries :: nat

record stats =
  s_bytesProcessed :: nat
  s_totalBytes :: nat
  s_lines :: nat
  s_entries :: nat

datatype message =
    PROGRESS progress_payload
  | DONE "LogEntry list" stats
  | ERROR string

section \<open>The incremental text decoder\<close>

text \<open>
  \<^verbatim>\<open>new TextDecoder()\<close> is the platform's UTF-8 decoder in replacement mode (\<^verbatim>\<open>fatal\<close>
  is false) that removes one leading byte order mark (\<^verbatim>\<open>ignoreBOM\<close> is false). Its
  algorithm is the one of the Encoding Standard: the state is the code point under
  construction, the numbers of continuation bytes seen and needed, and the bounds for the
  next byte. A byte that cannot continue a sequence yields U+FFFD and is handled again
  as the first byte of a sequence.
\<close>

record utf8_state =
  code_point :: "32 word"
  bytes_seen :: nat
  bytes_needed :: nat
  lower_boundary :: byte
  upper_boundary :: byte

definition utf8_init :: utf8_state where
  "utf8_init = \<lparr>code_point = 0, bytes_seen = 0, bytes_needed = 0,
                 lower_boundary = 0x80, upper_boundary = 0xBF\<rparr>"

definition utf8_first :: "utf8_state \<Rightarrow> byte \<Rightarrow> utf8_state \<times> 32 word list" where
  "utf8_first d b =
     (if b \<le> 0x7F then (d, [ucast b])
      else if 0xC2 \<le> b \<and> b \<le> 0xDF
        then (d\<lparr>bytes_needed := 1, code_point := ucast (b AND 0x1F)\<rparr>, [])
      else if 0xE0 \<le> b \<and> b \<le> 0xEF
        then (d\<lparr>lower_boundary := (if b = 0xE0 then 0xA0 else lower_boundary d),
                upper_boundary := (if b = 0xED then 0x9F else upper_boundary d),
                bytes_needed := 2, code_point := ucast (b AND 0x0F)\<rparr>, [])
      else if 0xF0 \<le> b \<and> b \<le> 0xF4
        then (d\<lparr>lower_boundary := (if b = 0xF0 then 0x90 else lower_boundary d),
                upper_boundary := (if b = 0xF4 then 0x8F else upper_boundary d),
                bytes_needed := 3, code_point := ucast (b AND 0x07)\<rparr>, [])
      else (d, [0xFFFD]))"

definition utf8_handler :: "utf8_state \<Rightarrow> byte \<Rightarrow> utf8_state \<times> 32 word list" where
  "utf8_handler d b =
     (if bytes_needed d = 0 then utf8_first d b
      else if b < lower_boundary d \<or> upper_boundary d < b
        then (case utf8_first utf8_init b of (d', out) \<Rightarrow> (d', 0xFFFD # out))
      else
        (let cp = push_bit 6 (code_point d) OR ucast (b AND 0x3F);
             seen = bytes_seen d + 1
         in if seen \<noteq> bytes_needed d
            then (d\<lparr>lower_boundary := 0x80, upper_boundary := 0xBF,
                    code_point := cp, bytes_seen := seen\<rparr>, [])
            else (utf8_init, [cp])))"

text \<open>A scalar value as UTF-16 code units.\<close>

definition utf16 :: "32 word \<Rightarrow> jsstring" where
  "utf16 cp =
     (if cp \<le> 0xFFFF then [ucast cp]
      else [0xD800 + ucast (drop_bit 10 (cp - 0x10000)),
            0xDC00 + ucast ((cp - 0x10000) AND 0x3FF)])"

record TextDecoder =
  utf8 :: utf8_state
  BOM_seen :: bool

definition new_TextDecoder :: TextDecoder where
  "new_TextDecoder = \<lparr>utf8 = utf8_init, BOM_seen = False\<rparr>"

text \<open>Serialising the scalar values of the output: the first one is dropped when it is U+FEFF.\<close>

fun serialize :: "bool \<Rightarrow> 32 word list \<Rightarrow> bool \<times> jsstring" where
  "serialize seen [] = (seen, [])"
| "serialize seen (cp # cps) =
     (if \<not> seen \<and> cp = 0xFEFF then serialize True cps
      else (case serialize True cps of (seen', out) \<Rightarrow> (seen', utf16 cp @ out)))"

definition decode_byte :: "TextDecoder \<Rightarrow> byte \<Rightarrow> TextDecoder \<times> jsstring" where
  "decode_byte dec b =
     (case utf8_handler (utf8 dec) b of
        (d', cps) \<Rightarrow>
          (case serialize (BOM_seen dec) cps of
             (seen', out) \<Rightarrow> (\<lparr>utf8 = d', BOM_seen = seen'\<rparr>, out)))"

text \<open>\<^verbatim>\<open>decoder.decode(buffer, { stream: true })\<close>\<close>

fun decode_stream :: "TextDecoder \<Rightarrow> byte list \<Rightarrow> TextDecoder \<times> jsstring" where
  "decode_stream dec [] = (dec, [])"
| "decode_stream dec (b # bs) =
     (case decode_byte dec b of
        (dec', out) \<Rightarrow> (case decode_stream dec' bs of (dec'', out') \<Rightarrow> (dec'', out @ out')))"

text \<open>\<^verbatim>\<open>decoder.decode()\<close>: the end of the input; an unfinished sequence yields U+FFFD.\<close>

definition decode_flush :: "TextDecoder \<Rightarrow> jsstring" where
  "decode_flush dec =
     (if bytes_needed (utf8 dec) \<noteq> 0 then snd (serialize (BOM_seen dec) [0xFFFD]) else [])"

section \<open>The parser: \<^verbatim>\<open>parseFile\<close>\<close>

datatype js_exn = JsError string | JsThrown

text \<open>
  A \<^verbatim>\<open>File\<close>: its bytes, and for each offset whether reading the slice that starts
  there is rejected (\<^verbatim>\<open>slice.arrayBuffer()\<close> is the only operation that can fail).
\<close>

record jsfile =
  contents :: "byte list"
  read_error :: "nat \<Rightarrow> js_exn option"

definition fsize :: "jsfile \<Rightarrow> nat" where
  "fsize f = length (contents f)"

definition arrayBuffer :: "jsfile \<Rightarrow> nat \<Rightarrow> nat \<Rightarrow> js_exn + byte list" where
  "arrayBuffer f start end' =
     (case read_error f start of
        Some e \<Rightarrow> Inl e
      | None \<Rightarrow> Inr (take (end' - start) (drop start (contents f))))"

definition SLICE_SIZE :: nat where "SLICE_SIZE = 256 * 1024"
definition PROGRESS_INTERVAL_BYTES :: nat where "PROGRESS_INTERVAL_BYTES = 1 * 1024 * 1024"

record pstate =
  entries :: "LogEntry list"
  currentEntry :: "(nat \<times> jsstring list) option"
  bytesProcessed :: nat
  lastProgressAt :: nat
  lineNumber :: nat
  leftover :: jsstring
  decoder :: TextDecoder
  posted :: "message list"

definition init_pstate :: pstate where
  "init_pstate = \<lparr>entries = [], currentEntry = None, bytesProcessed = 0, lastProgressAt = 0,
                   lineNumber = 0, leftover = [], decoder = new_TextDecoder, posted = []\<rparr>"

text \<open>
  \<^verbatim>\<open>lines[0]\<close> is read with \<open>hd\<close>: an entry is only opened or extended by
  \<^verbatim>\<open>handleLine\<close>, which always leaves it with at least one line (lemma
  \<open>open_entry_nonempty\<close> below).
\<close>

definition finalizeEntry :: "pstate \<Rightarrow> pstate" where
  "finalizeEntry s =
     (case currentEntry s of
        None \<Rightarrow> s
      | Some (startLine, lines) \<Rightarrow>
          s\<lparr>entries := entries s @
                [\<lparr>lineStart = startLine, lineEnd = startLine + length lines - 1,
                  text' = join_nl lines, severity = detectSeverity (hd lines),
                  timestamp = detectTimestamp (hd lines)\<rparr>],
            currentEntry := None\<rparr>)"

definition handleLine :: "jsstring \<Rightarrow> pstate \<Rightarrow> pstate" where
  "handleLine line s0 =
     (let s = s0\<lparr>lineNumber := lineNumber s0 + 1\<rparr>;
          isStart = isEntryStart line;
          isContinuation = isContinuationLine line
      in case currentEntry s of
           None \<Rightarrow> s\<lparr>currentEntry := Some (lineNumber s, [line])\<rparr>
         | Some (startLine, lines) \<Rightarrow>
             if isStart \<and> \<not> isContinuation
             then (finalizeEntry s)\<lparr>currentEntry := Some (lineNumber s, [line])\<rparr>
             else s\<lparr>currentEntry := Some (startLine, lines @ [line])\<rparr>)"

text \<open>\<^verbatim>\<open>processText\<close> returns the trailing piece; the caller stores it in \<^verbatim>\<open>leftover\<close>.\<close>

definition processText :: "jsstring \<Rightarrow> pstate \<Rightarrow> jsstring \<times> pstate" where
  "processText bufferText s =
     (let lines = split_lines bufferText;
          trailing = (if lines = [] then [] else last lines)
      in (trailing, foldl (\<lambda>s line. handleLine line s) s (butlast lines)))"

text \<open>The body of the \<^verbatim>\<open>while\<close> loop once the slice has been read.\<close>

definition chunk_step :: "jsfile \<Rightarrow> byte list \<Rightarrow> pstate \<Rightarrow> pstate" where
  "chunk_step f buffer s =
     (case decode_stream (decoder s) buffer of
        (dec', txt) \<Rightarrow>
          (case processText (leftover s @ txt) (s\<lparr>decoder := dec'\<rparr>) of
             (trailing, s1) \<Rightarrow>
               (let s2 = s1\<lparr>leftover := trailing,
                            bytesProcessed := bytesProcessed s1 + length buffer\<rparr>
                in if bytesProcessed s2 - lastProgressAt s2 \<ge> PROGRESS_INTERVAL_BYTES
                      \<or> bytesProcessed s2 \<ge> fsize f
                   then s2\<lparr>lastProgressAt := bytesProcessed s2,
                           posted := posted s2 @
                             [PROGRESS \<lparr>p_bytesProcessed = bytesProcessed s2,
                                        p_totalBytes = fsize f,
                                        p_percent = min 1 (real (bytesProcessed s2) / real (fsize f)),
                                        p_lines = lineNumber s2,
                                        p_entries = length (entries s2)\<rparr>]\<rparr>
                   else s2)))"

text \<open>
  The \<^verbatim>\<open>while\<close> loop, with the slice size as a parameter (\<^verbatim>\<open>SLICE_SIZE\<close> in the
  source). A rejected read leaves the loop with the exception and the state reached; a loop
  that does not end has no result.
\<close>

partial_function (option) chunk_loop :: "nat \<Rightarrow> jsfile \<Rightarrow> pstate \<Rightarrow> (js_exn \<times> pstate + pstate) option" where
  "chunk_loop K f s =
     (if bytesProcessed s < fsize f then
        (case arrayBuffer f (bytesProcessed s) (bytesProcessed s + K) of
           Inl e \<Rightarrow> Some (Inl (e, s))
         | Inr buffer \<Rightarrow> chunk_loop K f (chunk_step f buffer s))
      else Some (Inr s))"

declare chunk_loop.simps [code]

text \<open>What follows the loop: flushing the decoder and the leftover line, and the final message.\<close>

definition finish :: "jsfile \<Rightarrow> pstate \<Rightarrow> pstate" where
  "finish f s =
     (let finalText = decode_flush (decoder s);
          s1 = (if finalText \<noteq> []
                then (case processText (leftover s @ finalText) s of
                        (trailing, s') \<Rightarrow> s'\<lparr>leftover := trailing\<rparr>)
                else s);
          s2 = (if leftover s1 \<noteq> [] then (handleLine (leftover s1) s1)\<lparr>leftover := []\<rparr> else s1);
          s3 = finalizeEntry s2
      in s3\<lparr>posted := posted s3 @
              [DONE (entries s3)
                 \<lparr>s_bytesProcessed = bytesProcessed s3, s_totalBytes = fsize f,
                  s_lines = lineNumber s3, s_entries = length (entries s3)\<rparr>]\<rparr>)"

definition parseFileWith :: "nat \<Rightarrow> jsfile \<Rightarrow> (js_exn \<times> pstate + pstate) option" where
  "parseFileWith K f =
     (case chunk_loop K f init_pstate of
        None \<Rightarrow> None
      | Some (Inl x) \<Rightarrow> Some (Inl x)
      | Some (Inr s) \<Rightarrow> Some (Inr (finish f s)))"

definition parseFile :: "jsfile \<Rightarrow> (js_exn \<times> pstate + pstate) option" where
  "parseFile f = parseFileWith SLICE_SIZE f"

text \<open>
  \<^verbatim>\<open>ctx.onmessage\<close>: the list of messages the worker posts for a request, in order. A
  request that is not a parse request with a file is ignored.
\<close>

datatype request = Parse jsfile | NotAParse

definition exn_message :: "js_exn \<Rightarrow> string" where
  "exn_message e = (case e of JsError m \<Rightarrow> m | JsThrown \<Rightarrow> ''Unknown worker error'')"

definition onmessageWith :: "nat \<Rightarrow> request \<Rightarrow> message list option" where
  "onmessageWith K req =
     (case req of
        NotAParse \<Rightarrow> Some []
      | Parse f \<Rightarrow>
          (case parseFileWith K f of
             None \<Rightarrow> None
           | Some (Inl (e, s)) \<Rightarrow> Some (posted s @ [ERROR (exn_message e)])
           | Some (Inr s) \<Rightarrow> Some (posted s)))"

definition onmessage :: "request \<Rightarrow> message list option" where
  "onmessage req = onmessageWith SLICE_SIZE req"

section \<open>The page: \<^verbatim>\<open>handleFile\<close>\<close>

text \<open>
  The state of the page that \<^verbatim>\<open>handleFile\<close> touches. \<open>worker\<close> says whether
  \<^verbatim>\<open>workerRef.current\<close> holds a worker; \<open>shown_entries\<close> and \<open>shown_stats\<close> are the
  page's \<^verbatim>\<open>entries\<close> and \<^verbatim>\<open>stats\<close> (the parser state has fields of these names
  already). The text of the size error is
  \<^verbatim>\<open>File too large. Maximum size is 30MB, got ...MB\<close>; the model keeps the size it reports.
\<close>

datatype ui_error = FileTooLarge nat | WorkerFailure string

record page =
  worker :: bool
  isParsing :: bool
  progress :: nat
  error :: "ui_error option"
  shown_entries :: "LogEntry list"
  selectedEntries :: "nat set"
  shown_stats :: "stats option"

definition MAX_FILE_SIZE :: nat where "MAX_FILE_SIZE = 30 * 1024 * 1024"

text \<open>The new state of the page and the message posted to the worker, if any.\<close>

definition handleFile :: "jsfile \<Rightarrow> page \<Rightarrow> page \<times> request option" where
  "handleFile f pg =
     (if \<not> worker pg then (pg, None)
      else if fsize f > MAX_FILE_SIZE then (pg\<lparr>error := Some (FileTooLarge (fsize f))\<rparr>, None)
      else (pg\<lparr>isParsing := True, progress := 0, error := None, shown_entries := [],
               selectedEntries := {}, shown_stats := None\<rparr>,
            Some (Parse f)))"

section \<open>Reference semantics: one pass over the whole text\<close>

text \<open>
  What the chunked loop is compared with: the text of the whole file (every byte decoded
  in one go, then the flush), its physical lines (the pieces of the split, the last one
  only when it is not empty), and the grouping machine run over these lines from the
  initial state and finalised.
\<close>

definition feed :: "jsstring list \<Rightarrow> pstate \<Rightarrow> pstate" where
  "feed ls s = foldl (\<lambda>s line. handleLine line s) s ls"

definition whole_text :: "byte list \<Rightarrow> jsstring" where
  "whole_text bs = (case decode_stream new_TextDecoder bs of (d, t) \<Rightarrow> t @ decode_flush d)"

definition physical_lines :: "jsstring \<Rightarrow> jsstring list" where
  "physical_lines t =
     (let ls = split_lines t in butlast ls @ (if last ls \<noteq> [] then [last ls] else []))"

definition segment :: "jsstring \<Rightarrow> pstate" where
  "segment t = finalizeEntry (feed (physical_lines t) init_pstate)"

text \<open>The success payload a parse of the bytes \<open>bs\<close> is expected to deliver.\<close>

definition spec_result :: "byte list \<Rightarrow> LogEntry list \<times> stats" where
  "spec_result bs =
     (let s = segment (whole_text bs)
      in (entries s, \<lparr>s_bytesProcessed = length bs, s_totalBytes = length bs,
                      s_lines = lineNumber s, s_entries = length (entries s)\<rparr>))"

text \<open>The payload of the final \<^verbatim>\<open>DONE\<close> message of a run, if the run ended with one.\<close>

definition done_payload :: "message list option \<Rightarrow> (LogEntry list \<times> stats) option" where
  "done_payload r =
     (case r of
        None \<Rightarrow> None
      | Some msgs \<Rightarrow> (case rev msgs of DONE es st # _ \<Rightarrow> Some (es, st) | _ \<Rightarrow> None))"

definition is_progress :: "message \<Rightarrow> bool" where
  "is_progress m = (case m of PROGRESS _ \<Rightarrow> True | _ \<Rightarrow> False)"

text \<open>
  The three variables the grouping machine owns, and the loop invariant: after the first
  \<open>bytesProcessed\<close> bytes, the decoder is where decoding that prefix leaves it, the
  leftover is the last piece of the decoded text, the machine has been fed every piece
  before it, and only progress reports have been posted.
\<close>

definition core :: "pstate \<Rightarrow> LogEntry list \<times> (nat \<times> jsstring list) option \<times> nat" where
  "core s = (entries s, currentEntry s, lineNumber s)"

definition consumed :: "jsfile \<Rightarrow> pstate \<Rightarrow> bool" where
  "consumed f s =
     (bytesProcessed s \<le> fsize f \<and> list_all is_progress (posted s) \<and>
      (case decode_stream new_TextDecoder (take (bytesProcessed s) (contents f)) of
         (d, t) \<Rightarrow> decoder s = d \<and> leftover s = last (split_lines t)
                   \<and> core s = core (feed (butlast (split_lines t)) init_pstate)))"

text \<open>
  The slices read so far: the loop is at the start of slice \<open>i\<close> (or at the end of the
  file), and every slice before it started inside the file and was read without error.
\<close>

definition slices_read :: "nat \<Rightarrow> jsfile \<Rightarrow> pstate \<Rightarrow> bool" where
  "slices_read K f s =
     (\<exists>i. bytesProcessed s = min (i * K) (fsize f)
          \<and> (\<forall>j<i. j * K < fsize f \<and> read_error f (j * K) = None))"

section \<open>Definitions the claims are stated with\<close>

text \<open>
  The continuation test as the specification words it: blank after trimming, leading
  whitespace, or a trimmed form that starts with \<^verbatim>\<open>at \<close> (one space), \<^verbatim>\<open>Caused by\<close>,
  \<^verbatim>\<open>Traceback\<close> or \<^verbatim>\<open>File "\<close> (one space). To be compared with \<open>isContinuationLine\<close>.
\<close>

definition spec_isContinuationLine :: "jsstring \<Rightarrow> bool" where
  "spec_isContinuationLine line =
     (trim line = []
      \<or> (case line of [] \<Rightarrow> False | c # _ \<Rightarrow> is_space c)
      \<or> prefix (ascii ''at '') (trim line)
      \<or> prefix (ascii ''Caused by'') (trim line)
      \<or> prefix (ascii ''Traceback'') (trim line)
      \<or> prefix (ascii ''File '' @ [0x22]) (trim line))"

text \<open>
  The page as \<^verbatim>\<open>Home\<close> first renders it: the initial values of its \<^verbatim>\<open>useState\<close> and
  \<^verbatim>\<open>useRef\<close> hooks; the worker reference is filled by the mount effect.
\<close>

definition initial_page :: page where
  "initial_page = \<lparr>worker = False, isParsing = False, progress = 0, error = None,
                    shown_entries = [], selectedEntries = {}, shown_stats = None\<rparr>"

text \<open>
  \<open>covers a es b\<close>: the entries \<open>es\<close>, in order, cover the lines \<open>a + 1\<close> to \<open>b\<close>
  without gap or overlap, each with \<open>lineStart \<le> lineEnd\<close> and a text of
  \<open>lineEnd - lineStart + 1\<close> lines. \<open>tracked\<close> is the invariant of the grouping machine
  behind it: the finalised entries cover the lines before the open entry, and the open entry
  holds the lines from its start up to the current line number, none with a line feed inside.
\<close>

fun covers :: "nat \<Rightarrow> LogEntry list \<Rightarrow> nat \<Rightarrow> bool" where
  "covers a [] b = (a = b)"
| "covers a (e # es) b =
     (lineStart e = a + 1 \<and> lineStart e \<le> lineEnd e
      \<and> length (split_nl (text' e)) = lineEnd e - lineStart e + 1
      \<and> covers (lineEnd e) es b)"

definition tracked :: "pstate \<Rightarrow> bool" where
  "tracked s =
     (case currentEntry s of
        None \<Rightarrow> covers 0 (entries s) (lineNumber s)
      | Some (startLine, lines) \<Rightarrow>
          lines \<noteq> [] \<and> LF \<notin> \<Union> (set (map set lines))
          \<and> startLine + length lines = Suc (lineNumber s)
          \<and> covers 0 (entries s) (startLine - 1) \<and> 0 < startLine)"

text \<open>
  What the severity and timestamp patterns mean, position by position.
  \<open>severity_match_at line i tok\<close>: \<open>tok\<close> is one of the seven tokens, the code units of
  \<open>line\<close> from position \<open>i\<close> are \<open>tok\<close> when put in upper case, and neither the code unit
  before position \<open>i\<close> nor the one after the match (if any) is a word character.
  \<open>is_timestamp m\<close>: \<open>m\<close> has the nineteen code units of the date-time shape, followed by
  nothing or by a dot and one or more digits.
\<close>

definition is_upper :: "cu \<Rightarrow> bool" where
  "is_upper c = (0x41 \<le> c \<and> c \<le> 0x5A)"

definition severity_match_at :: "jsstring \<Rightarrow> nat \<Rightarrow> jsstring \<Rightarrow> bool" where
  "severity_match_at line i tok =
     (tok \<in> set SEVERITY_TOKENS \<and> i + length tok \<le> length line
      \<and> toUpperCase (take (length tok) (drop i line)) = tok
      \<and> \<not> is_word_opt (opt_last (take i line))
      \<and> \<not> is_word_opt (opt_hd (drop (i + length tok) line)))"

definition is_timestamp :: "jsstring \<Rightarrow> bool" where
  "is_timestamp m =
     (shape_here TIMESTAMP_SHAPE m
      \<and> (case drop (length TIMESTAMP_SHAPE) m of
            [] \<Rightarrow> True
          | c # ds \<Rightarrow> c = 0x2E \<and> ds \<noteq> [] \<and> list_all is_digit ds))"

text \<open>
  An entry is \<open>classified\<close> when its two optional fields are what the detectors find on
  the first line of its text; \<open>classifying\<close> is the invariant of the grouping machine
  behind it.
\<close>

definition classified :: "LogEntry \<Rightarrow> bool" where
  "classified e =
     (severity e = detectSeverity (hd (split_nl (text' e)))
      \<and> timestamp e = detectTimestamp (hd (split_nl (text' e))))"

definition classifying :: "pstate \<Rightarrow> bool" where
  "classifying s =
     (list_all classified (entries s)
      \<and> (case currentEntry s of
            None \<Rightarrow> True
          | Some (startLine, lines) \<Rightarrow> lines \<noteq> [] \<and> LF \<notin> \<Union> (set (map set lines))))"

text \<open>
  \<open>strip_crlf\<close> removes the carriage return of every \<^verbatim>\<open>\r\n\<close> pair, scanning from the
  left, and keeps every other code unit. \<open>lines_of\<close> lists the lines the grouping machine
  holds: the lines of the texts of the finalised entries, then the lines of the open entry;
  \<open>collecting\<close> says that the open entry has at least one line and no line feed inside.
\<close>

fun strip_crlf :: "jsstring \<Rightarrow> jsstring" where
  "strip_crlf [] = []"
| "strip_crlf (c # cs) =
     (if c = CR \<and> opt_hd cs = Some LF then LF # strip_crlf (tl cs) else c # strip_crlf cs)"

definition lines_of :: "pstate \<Rightarrow> jsstring list" where
  "lines_of s =
     concat (map (\<lambda>e. split_nl (text' e)) (entries s))
     @ (case currentEntry s of None \<Rightarrow> [] | Some (startLine, lines) \<Rightarrow> lines)"

definition collecting :: "pstate \<Rightarrow> bool" where
  "collecting s =
     (case currentEntry s of
        None \<Rightarrow> True
      | Some (startLine, lines) \<Rightarrow> lines \<noteq> [] \<and> LF \<notin> \<Union> (set (map set lines)))"

section \<open>Lemmas: lines, the grouping machine, the decoder, the loop\<close>

lemma opt_hd_simps [simp]: "opt_hd [] = None" "opt_hd (x # xs) = Some x"
  by (simp_all add: opt_hd_def)

lemma CR_neq_LF [simp]: "CR \<noteq> LF" "LF \<noteq> CR"
  by (simp_all add: CR_def LF_def)

lemma split_lines_nonempty [simp]: "split_lines t \<noteq> []"
  by (induction t rule: split_lines.induct) (auto split: list.splits)

lemma split_lines_length: "length (split_lines t) = Suc (count_list t LF)"
  apply (induction t rule: split_lines.induct)
   apply (auto split: list.splits)
   apply (case_tac cs; simp)
  done

lemma split_lines_no_LF: "LF \<notin> set t \<Longrightarrow> split_lines t = [t]"
  apply (induction t rule: split_lines.induct)
   apply (auto split: list.splits)
  apply (case_tac cs; simp)
  done

lemma split_lines_single: "split_lines t = [l] \<Longrightarrow> l = t \<and> LF \<notin> set t"
proof -
  assume a: "split_lines t = [l]"
  have "count_list t LF = 0" using split_lines_length [of t] a by simp
  then have "LF \<notin> set t" by (simp add: count_list_0_iff)
  then show ?thesis using a split_lines_no_LF by auto
qed

lemma split_lines_LF: "split_lines (LF # cs) = [] # split_lines cs"
  by simp

lemma split_lines_CRLF: "split_lines (CR # LF # cs) = [] # split_lines cs"
  by simp

lemma split_lines_other:
  "c \<noteq> LF \<Longrightarrow> \<not> (c = CR \<and> opt_hd cs = Some LF) \<Longrightarrow>
   split_lines (c # cs) = (case split_lines cs of [] \<Rightarrow> [[c]] | l # ls \<Rightarrow> (c # l) # ls)"
  by auto

lemma split_lines_append:
  "split_lines (a @ b) = butlast (split_lines a) @ split_lines (last (split_lines a) @ b)"
proof (induction a rule: split_lines.induct)
  case 1
  then show ?case by simp
next
  case (2 c cs)
  consider (crlf) "c = CR \<and> opt_hd cs = Some LF" | (lf) "c = LF"
    | (other) "c \<noteq> LF" "\<not> (c = CR \<and> opt_hd cs = Some LF)" by blast
  then show ?case
  proof cases
    case crlf
    then obtain ds where cs: "cs = LF # ds" by (cases cs) auto
    have ih: "split_lines (ds @ b) = butlast (split_lines ds) @ split_lines (last (split_lines ds) @ b)"
      using "2.IH"(1) crlf cs by simp
    show ?thesis
      using crlf cs ih by (simp add: split_lines_CRLF del: split_lines.simps)
  next
    case lf
    have ih: "split_lines (cs @ b) = butlast (split_lines cs) @ split_lines (last (split_lines cs) @ b)"
      using "2.IH"(2) lf by simp
    show ?thesis
      using lf ih by (simp add: split_lines_LF del: split_lines.simps)
  next
    case other
    have ih: "split_lines (cs @ b) = butlast (split_lines cs) @ split_lines (last (split_lines cs) @ b)"
      using "2.IH"(3) other by blast
    obtain l ls where sp: "split_lines cs = l # ls" by (cases "split_lines cs") auto
    have rhs: "split_lines (c # cs) = (c # l) # ls"
      using other sp by (simp add: split_lines_other del: split_lines.simps)
    show ?thesis
    proof (cases "cs = []")
      case True
      then have "l = []" "ls = []" using sp by auto
      then show ?thesis using rhs True by (simp del: split_lines.simps)
    next
      case csne: False
      have nb: "\<not> (c = CR \<and> opt_hd (cs @ b) = Some LF)"
        using other csne by (cases cs) auto
      have lhs: "split_lines ((c # cs) @ b) =
                 (case split_lines (cs @ b) of [] \<Rightarrow> [[c]] | l # ls \<Rightarrow> (c # l) # ls)"
        using other(1) nb by (simp add: split_lines_other del: split_lines.simps)
      show ?thesis
      proof (cases "ls = []")
        case True
        then have lcs: "l = cs" using sp split_lines_single by blast
        have nb2: "\<not> (c = CR \<and> opt_hd (l @ b) = Some LF)" using nb lcs by simp
        have "split_lines ((c # l) @ b) =
                 (case split_lines (l @ b) of [] \<Rightarrow> [[c]] | l # ls \<Rightarrow> (c # l) # ls)"
          using other(1) nb2 by (simp add: split_lines_other del: split_lines.simps)
        then show ?thesis using lhs rhs True sp ih by (simp del: split_lines.simps)
      next
        case lsne: False
        then show ?thesis using lhs rhs sp ih by (simp del: split_lines.simps)
      qed
    qed
  qed
qed

lemma finalizeEntry_frame [simp]:
  "bytesProcessed (finalizeEntry s) = bytesProcessed s"
  "lastProgressAt (finalizeEntry s) = lastProgressAt s"
  "lineNumber (finalizeEntry s) = lineNumber s"
  "leftover (finalizeEntry s) = leftover s"
  "decoder (finalizeEntry s) = decoder s"
  "posted (finalizeEntry s) = posted s"
  by (simp_all add: finalizeEntry_def split: option.splits prod.splits)

lemma handleLine_frame [simp]:
  "bytesProcessed (handleLine l s) = bytesProcessed s"
  "lastProgressAt (handleLine l s) = lastProgressAt s"
  "leftover (handleLine l s) = leftover s"
  "decoder (handleLine l s) = decoder s"
  "posted (handleLine l s) = posted s"
  by (simp_all add: handleLine_def Let_def split: option.splits prod.splits)

lemma handleLine_lineNumber [simp]: "lineNumber (handleLine l s) = Suc (lineNumber s)"
  by (simp add: handleLine_def Let_def split: option.splits prod.splits)

lemma open_entry_nonempty:
  "currentEntry (handleLine line s) = Some (startLine, lines) \<Longrightarrow> lines \<noteq> []"
  by (auto simp add: handleLine_def finalizeEntry_def Let_def split: option.splits prod.splits if_splits)

lemma feed_simps [simp]:
  "feed [] s = s"
  "feed (l # ls) s = feed ls (handleLine l s)"
  "feed (ls @ ms) s = feed ms (feed ls s)"
  by (simp_all add: feed_def)

lemma feed_frame [simp]:
  "bytesProcessed (feed ls s) = bytesProcessed s"
  "lastProgressAt (feed ls s) = lastProgressAt s"
  "leftover (feed ls s) = leftover s"
  "decoder (feed ls s) = decoder s"
  "posted (feed ls s) = posted s"
  by (induction ls arbitrary: s; simp)+

lemma feed_lineNumber [simp]: "lineNumber (feed ls s) = lineNumber s + length ls"
  by (induction ls arbitrary: s) simp_all

lemma finalizeEntry_core: "core s = core t \<Longrightarrow> core (finalizeEntry s) = core (finalizeEntry t)"
  by (simp add: core_def finalizeEntry_def split: option.splits prod.splits)

lemma handleLine_core: "core s = core t \<Longrightarrow> core (handleLine l s) = core (handleLine l t)"
  by (auto simp add: core_def handleLine_def finalizeEntry_def Let_def split: option.splits prod.splits)

lemma feed_core: "core s = core t \<Longrightarrow> core (feed ls s) = core (feed ls t)"
proof (induction ls arbitrary: s t)
  case Nil
  then show ?case by simp
next
  case (Cons l ls)
  from Cons.IH [OF handleLine_core [OF Cons.prems]] show ?case by simp
qed

lemma processText_eq:
  "processText t s = (last (split_lines t), feed (butlast (split_lines t)) s)"
  by (simp add: processText_def feed_def Let_def)

lemma decode_stream_append:
  "decode_stream d (a @ b) =
     (case decode_stream d a of (d1, o1) \<Rightarrow>
        (case decode_stream d1 b of (d2, o2) \<Rightarrow> (d2, o1 @ o2)))"
  by (induction a arbitrary: d) (simp_all split: prod.splits)

lemma chunk_step_bytes:
  "bytesProcessed (chunk_step f buf s) = bytesProcessed s + length buf"
  by (simp add: chunk_step_def processText_eq Let_def split: prod.splits)

lemma arrayBuffer_ok:
  "arrayBuffer f n (n + K) = Inr buf \<Longrightarrow> buf = take K (drop n (contents f)) \<and> read_error f n = None"
  by (simp add: arrayBuffer_def split: option.splits)

lemma arrayBuffer_err:
  "arrayBuffer f n m = Inl e \<Longrightarrow> read_error f n = Some e"
  by (simp add: arrayBuffer_def split: option.splits)

lemma chunk_loop_rule:
  assumes K: "0 < K"
    and step: "\<And>s buf. I s \<Longrightarrow> bytesProcessed s < fsize f \<Longrightarrow> read_error f (bytesProcessed s) = None \<Longrightarrow>
                 buf = take K (drop (bytesProcessed s) (contents f)) \<Longrightarrow> I (chunk_step f buf s)"
  shows "I s \<Longrightarrow> \<exists>r. chunk_loop K f s = Some r \<and>
           (case r of
              Inl (e, s') \<Rightarrow> I s' \<and> bytesProcessed s' < fsize f \<and> read_error f (bytesProcessed s') = Some e
            | Inr s' \<Rightarrow> I s' \<and> \<not> bytesProcessed s' < fsize f)"
proof (induction "fsize f - bytesProcessed s" arbitrary: s rule: less_induct)
  case less
  show ?case
  proof (cases "bytesProcessed s < fsize f")
    case False
    then show ?thesis using less.prems by (subst chunk_loop.simps) simp
  next
    case True
    show ?thesis
    proof (cases "arrayBuffer f (bytesProcessed s) (bytesProcessed s + K)")
      case (Inl e)
      then show ?thesis using True less.prems arrayBuffer_err [OF Inl]
        by (subst chunk_loop.simps) simp
    next
      case (Inr buf)
      note ab = arrayBuffer_ok [OF Inr]
      have ne: "buf \<noteq> []" using ab True K by (simp add: fsize_def)
      have I': "I (chunk_step f buf s)" using step less.prems True ab by blast
      have "fsize f - bytesProcessed (chunk_step f buf s) < fsize f - bytesProcessed s"
        using ne True by (cases buf) (simp_all add: chunk_step_bytes)
      from less.hyps [OF this I'] show ?thesis
        using True Inr by (subst chunk_loop.simps) simp
    qed
  qed
qed

lemma chunk_step_decoder:
  "decoder (chunk_step f buf s) = fst (decode_stream (decoder s) buf)"
  by (simp add: chunk_step_def processText_eq Let_def split: prod.splits)

lemma chunk_step_leftover:
  "leftover (chunk_step f buf s) = last (split_lines (leftover s @ snd (decode_stream (decoder s) buf)))"
  by (simp add: chunk_step_def processText_eq Let_def split: prod.splits)

lemma core_upd [simp]:
  "core (s\<lparr>decoder := d\<rparr>) = core s"
  "core (s\<lparr>leftover := l\<rparr>) = core s"
  "core (s\<lparr>bytesProcessed := b\<rparr>) = core s"
  "core (s\<lparr>lastProgressAt := b\<rparr>) = core s"
  "core (s\<lparr>posted := p\<rparr>) = core s"
  by (simp_all add: core_def)

lemma chunk_step_core:
  "core (chunk_step f buf s) = core (feed (butlast (split_lines (leftover s @ snd (decode_stream (decoder s) buf)))) s)"
proof -
  obtain d tx where dt: "decode_stream (decoder s) buf = (d, tx)" by (cases "decode_stream (decoder s) buf")
  have "core (feed (butlast (split_lines (leftover s @ tx))) (s\<lparr>decoder := d\<rparr>))
        = core (feed (butlast (split_lines (leftover s @ tx))) s)"
    by (rule feed_core) simp
  then show ?thesis
    by (simp add: chunk_step_def processText_eq Let_def dt)
qed

lemma chunk_step_posted:
  "posted (chunk_step f buf s) = posted s @
     (if bytesProcessed s + length buf - lastProgressAt s \<ge> PROGRESS_INTERVAL_BYTES
          \<or> bytesProcessed s + length buf \<ge> fsize f
      then [PROGRESS \<lparr>p_bytesProcessed = bytesProcessed s + length buf,
                      p_totalBytes = fsize f,
                      p_percent = min 1 (real (bytesProcessed s + length buf) / real (fsize f)),
                      p_lines = lineNumber (chunk_step f buf s),
                      p_entries = length (entries (chunk_step f buf s))\<rparr>]
      else [])"
  by (simp add: chunk_step_def processText_eq Let_def split: prod.splits)

lemma consumed_init: "consumed f init_pstate"
  by (simp add: consumed_def init_pstate_def)

lemma consumed_step:
  assumes c: "consumed f s" and lt: "bytesProcessed s < fsize f"
    and buf: "buf = take K (drop (bytesProcessed s) (contents f))"
  shows "consumed f (chunk_step f buf s)"
proof -
  let ?n = "bytesProcessed s"
  obtain d t where dt: "decode_stream new_TextDecoder (take ?n (contents f)) = (d, t)"
    by (cases "decode_stream new_TextDecoder (take ?n (contents f))")
  from c dt have ds: "decoder s = d" and lo: "leftover s = last (split_lines t)"
    and co: "core s = core (feed (butlast (split_lines t)) init_pstate)"
    and pr: "list_all is_progress (posted s)"
    by (simp_all add: consumed_def)
  obtain d' tx where dt': "decode_stream d buf = (d', tx)" by (cases "decode_stream d buf")
  have len: "?n + length buf \<le> fsize f" using lt buf by (simp add: fsize_def)
  have tk: "take (?n + length buf) (contents f) = take ?n (contents f) @ buf"
    using buf by (simp add: take_add min_def)
  have dec: "decode_stream new_TextDecoder (take (?n + length buf) (contents f)) = (d', t @ tx)"
    by (simp add: tk decode_stream_append dt dt')
  have sp: "split_lines (t @ tx) = butlast (split_lines t) @ split_lines (last (split_lines t) @ tx)"
    by (rule split_lines_append)
  have l1: "last (split_lines (t @ tx)) = last (split_lines (leftover s @ tx))"
    by (simp add: sp lo)
  have l2: "butlast (split_lines (t @ tx)) = butlast (split_lines t) @ butlast (split_lines (leftover s @ tx))"
    by (simp add: sp lo butlast_append)
  have "core (feed (butlast (split_lines (leftover s @ tx))) s)
        = core (feed (butlast (split_lines (leftover s @ tx))) (feed (butlast (split_lines t)) init_pstate))"
    by (rule feed_core) (rule co)
  then have c2: "core (chunk_step f buf s) = core (feed (butlast (split_lines (t @ tx))) init_pstate)"
    by (simp add: chunk_step_core ds dt' l2)
  have p2: "list_all is_progress (posted (chunk_step f buf s))"
    using pr by (simp add: chunk_step_posted is_progress_def)
  show ?thesis
    using len p2 c2 l1
    by (simp add: consumed_def chunk_step_bytes dec chunk_step_decoder chunk_step_leftover ds dt')
qed


lemma feed_last: "xs \<noteq> [] \<Longrightarrow> feed xs s = handleLine (last xs) (feed (butlast xs) s)"
proof -
  assume "xs \<noteq> []"
  then have "feed xs s = feed (butlast xs @ [last xs]) s" by simp
  also have "\<dots> = handleLine (last xs) (feed (butlast xs) s)" by (simp only: feed_simps)
  finally show ?thesis .
qed

lemma slices_read_init: "slices_read K f init_pstate"
  unfolding slices_read_def by (rule exI [of _ 0]) (simp add: init_pstate_def)

lemma slices_read_step:
  assumes s: "slices_read K f s" and lt: "bytesProcessed s < fsize f"
    and ok: "read_error f (bytesProcessed s) = None"
    and buf: "buf = take K (drop (bytesProcessed s) (contents f))"
  shows "slices_read K f (chunk_step f buf s)"
proof -
  from s obtain i where i: "bytesProcessed s = min (i * K) (fsize f)"
    and r: "\<forall>j<i. j * K < fsize f \<and> read_error f (j * K) = None"
    by (auto simp: slices_read_def)
  have bp: "bytesProcessed s = i * K" and ilt: "i * K < fsize f" using i lt by (simp_all add: min_def split: if_splits)
  have "bytesProcessed (chunk_step f buf s) = min (Suc i * K) (fsize f)"
    using bp ilt buf by (auto simp add: chunk_step_bytes fsize_def min_def)
  moreover have "\<forall>j<Suc i. j * K < fsize f \<and> read_error f (j * K) = None"
    using r ok bp ilt by (auto simp: less_Suc_eq)
  ultimately show ?thesis unfolding slices_read_def by blast
qed

lemma loop_result:
  assumes K: "0 < K"
  shows "\<exists>r. chunk_loop K f init_pstate = Some r \<and>
           (case r of
              Inl (e, s') \<Rightarrow> consumed f s' \<and> slices_read K f s' \<and> bytesProcessed s' < fsize f
                             \<and> read_error f (bytesProcessed s') = Some e
            | Inr s' \<Rightarrow> consumed f s' \<and> slices_read K f s' \<and> bytesProcessed s' = fsize f)"
proof -
  have "\<exists>r. chunk_loop K f init_pstate = Some r \<and>
           (case r of
              Inl (e, s') \<Rightarrow> (consumed f s' \<and> slices_read K f s') \<and> bytesProcessed s' < fsize f
                             \<and> read_error f (bytesProcessed s') = Some e
            | Inr s' \<Rightarrow> (consumed f s' \<and> slices_read K f s') \<and> \<not> bytesProcessed s' < fsize f)"
  proof (rule chunk_loop_rule [where I = "\<lambda>s. consumed f s \<and> slices_read K f s", OF K])
    show "consumed f init_pstate \<and> slices_read K f init_pstate"
      by (simp add: consumed_init slices_read_init)
  next
    fix s buf
    assume "consumed f s \<and> slices_read K f s" "bytesProcessed s < fsize f"
      "read_error f (bytesProcessed s) = None" "buf = take K (drop (bytesProcessed s) (contents f))"
    then show "consumed f (chunk_step f buf s) \<and> slices_read K f (chunk_step f buf s)"
      using consumed_step slices_read_step by blast
  qed
  then obtain r where r: "chunk_loop K f init_pstate = Some r"
    and c: "case r of
              Inl (e, s') \<Rightarrow> (consumed f s' \<and> slices_read K f s') \<and> bytesProcessed s' < fsize f
                             \<and> read_error f (bytesProcessed s') = Some e
            | Inr s' \<Rightarrow> (consumed f s' \<and> slices_read K f s') \<and> \<not> bytesProcessed s' < fsize f" by blast
  have "case r of
              Inl (e, s') \<Rightarrow> consumed f s' \<and> slices_read K f s' \<and> bytesProcessed s' < fsize f
                             \<and> read_error f (bytesProcessed s') = Some e
            | Inr s' \<Rightarrow> consumed f s' \<and> slices_read K f s' \<and> bytesProcessed s' = fsize f"
    using c by (auto simp: consumed_def split: sum.splits)
  with r show ?thesis by blast
qed

lemma finish_core:
  assumes c: "consumed f s" and full: "bytesProcessed s = fsize f"
  shows "core (finish f s) = core (segment (whole_text (contents f)))"
    and "posted (finish f s) = posted s @ [DONE (fst (spec_result (contents f))) (snd (spec_result (contents f)))]"
proof -
  obtain d t where dt: "decode_stream new_TextDecoder (contents f) = (d, t)"
    by (cases "decode_stream new_TextDecoder (contents f)")
  from c full dt have ds: "decoder s = d" and lo: "leftover s = last (split_lines t)"
    and co: "core s = core (feed (butlast (split_lines t)) init_pstate)"
    by (simp_all add: consumed_def fsize_def)
  define ft where "ft = decode_flush d"
  define s1 where "s1 = (if ft \<noteq> []
                then (case processText (leftover s @ ft) s of
                        (trailing, s') \<Rightarrow> s'\<lparr>leftover := trailing\<rparr>)
                else s)"
  define s2 where "s2 = (if leftover s1 \<noteq> [] then (handleLine (leftover s1) s1)\<lparr>leftover := []\<rparr> else s1)"
  have wt: "whole_text (contents f) = t @ ft" by (simp add: whole_text_def dt ft_def)
  have sp: "split_lines (t @ ft) = butlast (split_lines t) @ split_lines (last (split_lines t) @ ft)"
    by (rule split_lines_append)
  have fc: "core (feed ls s) = core (feed ls (feed (butlast (split_lines t)) init_pstate))" for ls
    by (rule feed_core) (rule co)
  have s1_lo: "leftover s1 = last (split_lines (t @ ft))"
    by (cases "ft = []") (simp_all add: s1_def processText_eq lo sp)
  have s1_core: "core s1 = core (feed (butlast (split_lines (t @ ft))) init_pstate)"
  proof (cases "ft = []")
    case True
    then show ?thesis by (simp add: s1_def co)
  next
    case False
    then show ?thesis by (simp add: s1_def processText_eq sp butlast_append fc lo)
  qed
  have s1_fr: "bytesProcessed s1 = bytesProcessed s" "posted s1 = posted s"
    by (simp_all add: s1_def processText_eq)
  have s2_core: "core s2 = core (feed (physical_lines (t @ ft)) init_pstate)"
  proof (cases "leftover s1 = []")
    case True
    then show ?thesis using s1_core s1_lo by (simp add: s2_def physical_lines_def Let_def)
  next
    case False
    have "core (handleLine (leftover s1) s1)
          = core (handleLine (leftover s1) (feed (butlast (split_lines (t @ ft))) init_pstate))"
      by (rule handleLine_core) (rule s1_core)
    then show ?thesis using False s1_lo by (simp add: s2_def physical_lines_def Let_def feed_last)
  qed
  have s2_fr: "bytesProcessed s2 = bytesProcessed s" "posted s2 = posted s"
    by (simp_all add: s2_def s1_fr)
  have s3_core: "core (finalizeEntry s2) = core (segment (t @ ft))"
    unfolding segment_def by (rule finalizeEntry_core) (rule s2_core)
  have fin: "finish f s = (finalizeEntry s2)\<lparr>posted := posted (finalizeEntry s2) @
              [DONE (entries (finalizeEntry s2))
                 \<lparr>s_bytesProcessed = bytesProcessed (finalizeEntry s2), s_totalBytes = fsize f,
                  s_lines = lineNumber (finalizeEntry s2), s_entries = length (entries (finalizeEntry s2))\<rparr>]\<rparr>"
    by (simp add: finish_def Let_def s2_def s1_def ft_def ds)
  show "core (finish f s) = core (segment (whole_text (contents f)))"
    by (simp add: fin s3_core wt)
  have e: "entries (finalizeEntry s2) = entries (segment (t @ ft))"
    and l: "lineNumber (finalizeEntry s2) = lineNumber (segment (t @ ft))"
    using s3_core by (simp_all add: core_def)
  show "posted (finish f s) = posted s @ [DONE (fst (spec_result (contents f))) (snd (spec_result (contents f)))]"
    using e l by (simp add: fin spec_result_def Let_def wt s2_fr full fsize_def)
qed

lemma onmessageWith_outcome:
  assumes K: "0 < K"
  shows "\<exists>ps. list_all is_progress ps \<and>
          ((\<forall>j. j * K < fsize f \<longrightarrow> read_error f (j * K) = None) \<and>
           onmessageWith K (Parse f)
             = Some (ps @ [DONE (fst (spec_result (contents f))) (snd (spec_result (contents f)))])
           \<or> (\<exists>i e. i * K < fsize f \<and> read_error f (i * K) = Some e
                 \<and> (\<forall>j<i. read_error f (j * K) = None)
                 \<and> onmessageWith K (Parse f) = Some (ps @ [ERROR (exn_message e)])))"
proof -
  from loop_result [OF K] obtain r where r: "chunk_loop K f init_pstate = Some r"
    and c: "case r of
              Inl (e, s') \<Rightarrow> consumed f s' \<and> slices_read K f s' \<and> bytesProcessed s' < fsize f
                             \<and> read_error f (bytesProcessed s') = Some e
            | Inr s' \<Rightarrow> consumed f s' \<and> slices_read K f s' \<and> bytesProcessed s' = fsize f" by blast
  show ?thesis
  proof (cases r)
    case (Inl x)
    obtain e s' where x: "x = (e, s')" by (cases x)
    have pr: "list_all is_progress (posted s')" and re: "read_error f (bytesProcessed s') = Some e"
      and lt: "bytesProcessed s' < fsize f" and sl: "slices_read K f s'"
      using c Inl x by (simp_all add: consumed_def)
    from sl obtain i where i: "bytesProcessed s' = min (i * K) (fsize f)"
      and ok: "\<forall>j<i. j * K < fsize f \<and> read_error f (j * K) = None"
      by (auto simp: slices_read_def)
    have bp: "bytesProcessed s' = i * K" using i lt by (simp add: min_def split: if_splits)
    have "onmessageWith K (Parse f) = Some (posted s' @ [ERROR (exn_message e)])"
      by (simp add: onmessageWith_def parseFileWith_def r Inl x)
    moreover have "i * K < fsize f \<and> read_error f (i * K) = Some e \<and> (\<forall>j<i. read_error f (j * K) = None)"
      using bp lt re ok by simp
    ultimately show ?thesis using pr by blast
  next
    case (Inr s')
    have cs: "consumed f s'" and full: "bytesProcessed s' = fsize f" and sl: "slices_read K f s'"
      using c Inr by simp_all
    from sl obtain i where i: "bytesProcessed s' = min (i * K) (fsize f)"
      and ok: "\<forall>j<i. j * K < fsize f \<and> read_error f (j * K) = None"
      by (auto simp: slices_read_def)
    have ge: "fsize f \<le> i * K" using i full by (simp add: min_def split: if_splits)
    have allok: "\<forall>j. j * K < fsize f \<longrightarrow> read_error f (j * K) = None"
    proof (intro allI impI)
      fix j assume jl: "j * K < fsize f"
      have "j < i"
      proof (rule ccontr)
        assume "\<not> j < i"
        then have "i * K \<le> j * K" by (simp add: mult_le_mono1)
        with jl ge show False by linarith
      qed
      then show "read_error f (j * K) = None" using ok by simp
    qed
    have "onmessageWith K (Parse f) = Some (posted (finish f s'))"
      by (simp add: onmessageWith_def parseFileWith_def r Inr)
    moreover have "list_all is_progress (posted s')" using cs by (simp add: consumed_def)
    ultimately show ?thesis using finish_core(2) [OF cs full] allok by auto
  qed
qed

lemma onmessageWith_readable:
  assumes K: "0 < K" and ok: "\<And>n. read_error f n = None"
  shows "\<exists>ps. list_all is_progress ps \<and>
          onmessageWith K (Parse f)
             = Some (ps @ [DONE (fst (spec_result (contents f))) (snd (spec_result (contents f)))])"
  using onmessageWith_outcome [OF K, of f] ok by auto

lemma done_payload_readable:
  assumes K: "0 < K" and ok: "\<And>n. read_error f n = None"
  shows "done_payload (onmessageWith K (Parse f)) = Some (spec_result (contents f))"
  using onmessageWith_readable [OF K ok] by (auto simp: done_payload_def)

lemma done_payload_Some:
  assumes K: "0 < K" and d: "done_payload (onmessageWith K (Parse f)) = Some r"
  shows "r = spec_result (contents f)"
  using onmessageWith_outcome [OF K, of f] d by (auto simp: done_payload_def)

lemma length_ascii [simp]: "length (ascii s) = length s"
  by (simp add: ascii_def)

section \<open>The claims\<close>

lemma split_nl_no_LF: "LF \<notin> set l \<Longrightarrow> split_nl l = [l]"
  by (induction l) auto

lemma split_nl_line: "LF \<notin> set l \<Longrightarrow> split_nl (l @ LF # r) = l # split_nl r"
  by (induction l) auto

lemma split_nl_join:
  "lines \<noteq> [] \<Longrightarrow> LF \<notin> \<Union> (set (map set lines)) \<Longrightarrow> split_nl (join_nl lines) = lines"
  by (induction lines rule: join_nl.induct) (simp_all add: split_nl_no_LF split_nl_line)

lemma covers_snoc:
  "covers a es m \<Longrightarrow> lineStart e = m + 1 \<Longrightarrow> lineStart e \<le> lineEnd e \<Longrightarrow>
   length (split_nl (text' e)) = lineEnd e - lineStart e + 1 \<Longrightarrow>
   covers a (es @ [e]) (lineEnd e)"
  by (induction es arbitrary: a) auto

lemma tracked_init: "tracked init_pstate"
  by (simp add: tracked_def init_pstate_def)

lemma tracked_finalize:
  assumes "tracked s"
  shows "covers 0 (entries (finalizeEntry s)) (lineNumber s)" and "currentEntry (finalizeEntry s) = None"
proof -
  show "currentEntry (finalizeEntry s) = None"
    by (simp add: finalizeEntry_def split: option.splits prod.splits)
  show "covers 0 (entries (finalizeEntry s)) (lineNumber s)"
  proof (cases "currentEntry s")
    case None
    then show ?thesis using assms by (simp add: finalizeEntry_def tracked_def)
  next
    case (Some p)
    obtain st ls where p: "p = (st, ls)" by (cases p)
    from assms Some p have ne: "ls \<noteq> []" and nl: "LF \<notin> \<Union> (set (map set ls))"
      and ln: "st + length ls = Suc (lineNumber s)" and cv: "covers 0 (entries s) (st - 1)"
      and pos: "0 < st"
      by (simp_all add: tracked_def)
    let ?e = "\<lparr>lineStart = st, lineEnd = st + length ls - 1, text' = join_nl ls,
               severity = detectSeverity (hd ls), timestamp = detectTimestamp (hd ls)\<rparr>"
    obtain x xs where ls: "ls = x # xs" using ne by (cases ls) auto
    have "covers 0 (entries s @ [?e]) (lineEnd ?e)"
    proof (rule covers_snoc [OF cv])
      show "lineStart ?e = st - 1 + 1" using pos by simp
      show "lineStart ?e \<le> lineEnd ?e" by (simp add: ls)
      show "length (split_nl (text' ?e)) = lineEnd ?e - lineStart ?e + 1"
        by (simp add: split_nl_join [OF ne nl]) (simp add: ls)
    qed
    moreover have "lineEnd ?e = lineNumber s" using ln by (simp add: ls)
    ultimately show ?thesis by (simp add: finalizeEntry_def Some p)
  qed
qed

lemma tracked_handleLine:
  assumes t: "tracked s" and l: "LF \<notin> set line"
  shows "tracked (handleLine line s)"
proof (cases "currentEntry s")
  case None
  then show ?thesis using t l by (simp add: handleLine_def tracked_def Let_def)
next
  case (Some p)
  obtain st ls where p: "p = (st, ls)" by (cases p)
  show ?thesis
  proof (cases "isEntryStart line \<and> \<not> isContinuationLine line")
    case True
    have "covers 0 (entries (finalizeEntry s)) (lineNumber s)" by (rule tracked_finalize(1) [OF t])
    moreover have "entries (finalizeEntry (s\<lparr>lineNumber := Suc (lineNumber s)\<rparr>)) = entries (finalizeEntry s)"
      by (simp add: finalizeEntry_def split: option.splits prod.splits)
    ultimately show ?thesis using True Some p l
      by (simp add: handleLine_def tracked_def Let_def)
  next
    case False
    then show ?thesis using t l Some p by (auto simp add: handleLine_def tracked_def Let_def)
  qed
qed

lemma tracked_feed: "tracked s \<Longrightarrow> LF \<notin> \<Union> (set (map set ls)) \<Longrightarrow> tracked (feed ls s)"
  by (induction ls arbitrary: s) (simp_all add: tracked_handleLine)

lemma split_lines_pieces: "l \<in> set (split_lines t) \<Longrightarrow> LF \<notin> set l"
proof (induction t arbitrary: l rule: split_lines.induct)
  case 1
  then show ?case by simp
next
  case (2 c cs)
  consider (crlf) "c = CR \<and> opt_hd cs = Some LF" | (lf) "c = LF"
    | (other) "c \<noteq> LF" "\<not> (c = CR \<and> opt_hd cs = Some LF)" by blast
  then show ?case
  proof cases
    case crlf
    then show ?thesis using 2 by auto
  next
    case lf
    then show ?thesis using 2 by auto
  next
    case other
    obtain p ps where sp: "split_lines cs = p # ps" by (cases "split_lines cs") auto
    have "l = c # p \<or> l \<in> set ps" using "2.prems" other sp by (auto simp: split_lines_other)
    moreover have "LF \<notin> set p" "\<And>x. x \<in> set ps \<Longrightarrow> LF \<notin> set x"
      using "2.IH"(3) other sp by auto
    ultimately show ?thesis using other by auto
  qed
qed

lemma physical_lines_no_LF: "LF \<notin> \<Union> (set (map set (physical_lines t)))"
proof -
  have "set (physical_lines t) \<subseteq> set (split_lines t)"
    by (auto simp: physical_lines_def Let_def dest: in_set_butlastD)
  then show ?thesis using split_lines_pieces by auto
qed

lemma segment_lineNumber: "lineNumber (segment t) = length (physical_lines t)"
  by (simp add: segment_def init_pstate_def)

lemma segment_covers: "covers 0 (entries (segment t)) (lineNumber (segment t))"
proof -
  have "tracked (feed (physical_lines t) init_pstate)"
    by (rule tracked_feed [OF tracked_init physical_lines_no_LF])
  from tracked_finalize(1) [OF this] show ?thesis
    by (simp add: segment_def)
qed

lemma covers_each:
  "covers a es b \<Longrightarrow> e \<in> set es \<Longrightarrow>
   lineStart e \<le> lineEnd e \<and> length (split_nl (text' e)) = lineEnd e - lineStart e + 1"
  by (induction es arbitrary: a) auto

lemma covers_ends:
  "covers a es b \<Longrightarrow> es \<noteq> [] \<Longrightarrow> lineStart (hd es) = a + 1 \<and> lineEnd (last es) = b"
  by (induction es arbitrary: a) auto

lemma covers_next:
  "covers a es b \<Longrightarrow> Suc i < length es \<Longrightarrow> lineStart (es ! Suc i) = lineEnd (es ! i) + 1"
proof (induction es arbitrary: a i)
  case Nil
  then show ?case by simp
next
  case (Cons e es)
  show ?case
  proof (cases i)
    case 0
    then show ?thesis using Cons.prems by (cases es) auto
  next
    case (Suc k)
    then show ?thesis using Cons.prems Cons.IH [of "lineEnd e" k] by simp
  qed
qed

lemma two_entries_result:
  "spec_result [0x41, 0x0A, 0x7B]
   = ([\<lparr>lineStart = 1, lineEnd = 1, text' = [0x41], severity = None, timestamp = None\<rparr>,
       \<lparr>lineStart = 2, lineEnd = 2, text' = [0x7B], severity = None, timestamp = None\<rparr>],
      \<lparr>s_bytesProcessed = 3, s_totalBytes = 3, s_lines = 2, s_entries = 2\<rparr>)"
  by code_simp

text \<open>
  Claim C1. The entries of a completed parse partition the physical lines: every entry has
  \<open>lineStart \<le> lineEnd\<close> and a text that splits on line feeds into
  \<open>lineEnd - lineStart + 1\<close> pieces; the first entry starts at line 1; each further entry
  starts right after the end of the one before; the last entry ends at the total line count
  (which is the number of physical lines of the text of the file); and there is no entry only
  when there is no line.
\<close>

theorem entries_partition_lines:
  assumes "0 < K" and "done_payload (onmessageWith K (Parse f)) = Some (es, st)"
  shows "(\<forall>e \<in> set es. lineStart e \<le> lineEnd e
             \<and> length (split_nl (text' e)) = lineEnd e - lineStart e + 1)
       \<and> (es \<noteq> [] \<longrightarrow> lineStart (hd es) = 1 \<and> lineEnd (last es) = s_lines st)
       \<and> (es = [] \<longrightarrow> s_lines st = 0)
       \<and> (\<forall>i. Suc i < length es \<longrightarrow> lineStart (es ! Suc i) = lineEnd (es ! i) + 1)
       \<and> s_lines st = length (physical_lines (whole_text (contents f)))"
proof -
  have r: "(es, st) = spec_result (contents f)" by (rule done_payload_Some [OF assms])
  define t where "t = whole_text (contents f)"
  have es: "es = entries (segment t)" and n: "s_lines st = lineNumber (segment t)"
    using r by (simp_all add: spec_result_def Let_def t_def)
  have cv: "covers 0 es (s_lines st)" using segment_covers [of t] es n by simp
  have "\<forall>e \<in> set es. lineStart e \<le> lineEnd e
             \<and> length (split_nl (text' e)) = lineEnd e - lineStart e + 1"
    using covers_each [OF cv] by blast
  moreover have "es \<noteq> [] \<longrightarrow> lineStart (hd es) = 1 \<and> lineEnd (last es) = s_lines st"
    using covers_ends [OF cv] by simp
  moreover have "es = [] \<longrightarrow> s_lines st = 0" using cv by auto
  moreover have "\<forall>i. Suc i < length es \<longrightarrow> lineStart (es ! Suc i) = lineEnd (es ! i) + 1"
    using covers_next [OF cv] by blast
  moreover have "s_lines st = length (physical_lines (whole_text (contents f)))"
    using n segment_lineNumber [of t] by (simp add: t_def)
  ultimately show ?thesis by blast
qed

theorem entries_partition_lines_witness:
  "(0::nat) < 2
   \<and> done_payload (onmessageWith 2 (Parse \<lparr>contents = [0x41, 0x0A, 0x7B], read_error = (\<lambda>_. None)\<rparr>))
       = Some ([\<lparr>lineStart = 1, lineEnd = 1, text' = [0x41], severity = None, timestamp = None\<rparr>,
                \<lparr>lineStart = 2, lineEnd = 2, text' = [0x7B], severity = None, timestamp = None\<rparr>],
               \<lparr>s_bytesProcessed = 3, s_totalBytes = 3, s_lines = 2, s_entries = 2\<rparr>)
   \<and> length (physical_lines (whole_text [0x41, 0x0A, 0x7B])) = 2"
proof -
  have K: "(0::nat) < 2" by simp
  have dp: "done_payload (onmessageWith 2 (Parse \<lparr>contents = [0x41, 0x0A, 0x7B], read_error = (\<lambda>_. None)\<rparr>))
       = Some ([\<lparr>lineStart = 1, lineEnd = 1, text' = [0x41], severity = None, timestamp = None\<rparr>,
                \<lparr>lineStart = 2, lineEnd = 2, text' = [0x7B], severity = None, timestamp = None\<rparr>],
               \<lparr>s_bytesProcessed = 3, s_totalBytes = 3, s_lines = 2, s_entries = 2\<rparr>)"
    using done_payload_readable [OF K, of "\<lparr>contents = [0x41, 0x0A, 0x7B], read_error = (\<lambda>_. None)\<rparr>"]
    by (simp add: two_entries_result)
  show ?thesis
    using entries_partition_lines [OF K dp] K dp by simp
qed

lemma not_space_quote [simp]: "\<not> is_space 0x22" "\<not> is_space 0x7B"
  by (simp_all add: is_space_def)

lemma dropWhile_spaces:
  "list_all is_space ws \<Longrightarrow> \<not> is_space q \<Longrightarrow> dropWhile is_space (ws @ q # r) = q # r"
  by (induction ws) simp_all

lemma opt_hd_dropWhile_iff:
  "\<not> is_space q \<Longrightarrow>
   opt_hd (dropWhile is_space s) = Some q \<longleftrightarrow> (\<exists>ws r. list_all is_space ws \<and> s = ws @ q # r)"
proof
  assume nq: "\<not> is_space q" and h: "opt_hd (dropWhile is_space s) = Some q"
  then obtain r where d: "dropWhile is_space s = q # r"
    by (cases "dropWhile is_space s") auto
  have "s = takeWhile is_space s @ q # r" using d takeWhile_dropWhile_id [of is_space s] by simp
  moreover have "list_all is_space (takeWhile is_space s)"
    by (simp add: list_all_iff) (meson set_takeWhileD)
  ultimately show "\<exists>ws r. list_all is_space ws \<and> s = ws @ q # r" by blast
next
  assume nq: "\<not> is_space q" and "\<exists>ws r. list_all is_space ws \<and> s = ws @ q # r"
  then show "opt_hd (dropWhile is_space s) = Some q" by (auto simp: dropWhile_spaces)
qed

lemma isJsonStart_iff:
  "isJsonStart line \<longleftrightarrow> (\<exists>ws r. list_all is_space ws \<and> line = ws @ 0x7B # r)"
  unfolding isJsonStart_def by (rule opt_hd_dropWhile_iff) simp

lemma starts_at_ws_iff:
  "starts_at_ws t \<longleftrightarrow> (\<exists>w r. is_space w \<and> t = ascii ''at'' @ w # r)"
proof
  assume "starts_at_ws t"
  then obtain r where t: "t = ascii ''at'' @ r" and c: "case drop 2 t of [] \<Rightarrow> False | w # _ \<Rightarrow> is_space w"
    by (auto simp: starts_at_ws_def prefix_def)
  from c t obtain w r' where "r = w # r'" "is_space w" by (cases r) auto
  then show "\<exists>w r. is_space w \<and> t = ascii ''at'' @ w # r" using t by blast
next
  assume "\<exists>w r. is_space w \<and> t = ascii ''at'' @ w # r"
  then show "starts_at_ws t" by (auto simp: starts_at_ws_def)
qed

lemma starts_file_quote_iff:
  "starts_file_quote t \<longleftrightarrow>
     (\<exists>ws r. ws \<noteq> [] \<and> list_all is_space ws \<and> t = ascii ''File'' @ ws @ 0x22 # r)"
proof
  assume "starts_file_quote t"
  then obtain r where t: "t = ascii ''File'' @ r"
    and c: "case drop 4 t of [] \<Rightarrow> False
            | w # r \<Rightarrow> is_space w \<and> opt_hd (dropWhile is_space r) = Some 0x22"
    by (auto simp: starts_file_quote_def prefix_def)
  from c t obtain w r' where r: "r = w # r'" and w: "is_space w"
    and q: "opt_hd (dropWhile is_space r') = Some 0x22" by (cases r) auto
  from q obtain ws r'' where "list_all is_space ws" "r' = ws @ 0x22 # r''"
    using opt_hd_dropWhile_iff [of "0x22" r'] by auto
  then have "w # ws \<noteq> [] \<and> list_all is_space (w # ws) \<and> t = ascii ''File'' @ (w # ws) @ 0x22 # r''"
    using t r w by simp
  then show "\<exists>ws r. ws \<noteq> [] \<and> list_all is_space ws \<and> t = ascii ''File'' @ ws @ 0x22 # r"
    by blast
next
  assume "\<exists>ws r. ws \<noteq> [] \<and> list_all is_space ws \<and> t = ascii ''File'' @ ws @ 0x22 # r"
  then obtain ws r where ne: "ws \<noteq> []" and sp: "list_all is_space ws"
    and t: "t = ascii ''File'' @ ws @ 0x22 # r" by blast
  from ne obtain w ws' where ws: "ws = w # ws'" by (cases ws) auto
  show "starts_file_quote t"
    using sp by (simp add: starts_file_quote_def t ws dropWhile_spaces)
qed

lemma isContinuationLine_iff:
  "isContinuationLine line \<longleftrightarrow>
     (trim line = []
      \<or> (\<exists>c r. line = c # r \<and> is_space c)
      \<or> (\<exists>w r. is_space w \<and> trim line = ascii ''at'' @ w # r)
      \<or> prefix (ascii ''Caused by'') (trim line)
      \<or> prefix (ascii ''Traceback'') (trim line)
      \<or> (\<exists>ws r. ws \<noteq> [] \<and> list_all is_space ws \<and> trim line = ascii ''File'' @ ws @ 0x22 # r))"
proof -
  have "(case line of [] \<Rightarrow> False | c # _ \<Rightarrow> is_space c) \<longleftrightarrow> (\<exists>c r. line = c # r \<and> is_space c)"
    by (cases line) auto
  then show ?thesis
    by (simp add: isContinuationLine_def Let_def starts_at_ws_iff starts_file_quote_iff)
qed

lemma tab_line_facts:
  "isEntryStart (ascii ''at'' @ [0x09] @ ascii ''ERROR boom'')"
  "isContinuationLine (ascii ''at'' @ [0x09] @ ascii ''ERROR boom'')"
  "\<not> spec_isContinuationLine (ascii ''at'' @ [0x09] @ ascii ''ERROR boom'')"
  by code_simp+

lemma retry_line_facts:
  "isEntryStart (ascii ''  ERROR retrying'')"
  "isContinuationLine (ascii ''  ERROR retrying'')"
  by code_simp+

lemma error_line_facts:
  "isEntryStart (ascii ''ERROR boom'')"
  "\<not> isContinuationLine (ascii ''ERROR boom'')"
  "detectSeverity (ascii ''INFO boot'') = Some (ascii ''INFO'')"
  "detectTimestamp (ascii ''INFO boot'') = None"
  by code_simp+

text \<open>
  Claim C2, as stated: with an entry open, a line closes it and opens a new one exactly
  when it is an entry-start candidate and none of: blank after trimming, leading whitespace,
  trimmed form starting with \<^verbatim>\<open>at \<close>, \<^verbatim>\<open>Caused by\<close>, \<^verbatim>\<open>Traceback\<close> or \<^verbatim>\<open>File "\<close>.
  The line \<^verbatim>\<open>at<TAB>ERROR boom\<close> is an entry-start candidate (it holds ERROR) and none
  of the listed continuation forms (a tab, not a space, follows \<^verbatim>\<open>at\<close>), yet the code
  appends it to the open entry: its test is \<^verbatim>\<open>/^at\s/\<close>, any whitespace.
\<close>

theorem at_tab_counterexample:
  "isEntryStart (ascii ''at'' @ [0x09] @ ascii ''ERROR boom'')
   \<and> \<not> spec_isContinuationLine (ascii ''at'' @ [0x09] @ ascii ''ERROR boom'')
   \<and> currentEntry (handleLine (ascii ''INFO boot'') init_pstate) = Some (1, [ascii ''INFO boot''])
   \<and> currentEntry (handleLine (ascii ''at'' @ [0x09] @ ascii ''ERROR boom'')
                      (handleLine (ascii ''INFO boot'') init_pstate))
       = Some (1, [ascii ''INFO boot'', ascii ''at'' @ [0x09] @ ascii ''ERROR boom''])
   \<and> entries (handleLine (ascii ''at'' @ [0x09] @ ascii ''ERROR boom'')
                      (handleLine (ascii ''INFO boot'') init_pstate)) = []"
  using tab_line_facts
  by (simp add: handleLine_def init_pstate_def Let_def)

text \<open>
  Claim C2, amended: the first line of the stream always opens an entry. With an entry
  open, a line closes it (the finalised entry is appended to the entries) and opens a new
  one at its own line number if and only if it is an entry-start candidate and not a
  continuation line; otherwise it is appended to the open entry. An entry-start candidate
  holds a timestamp pattern or a severity token or has \<^verbatim>\<open>{\<close> after leading whitespace. A
  continuation line is blank after trimming, or starts with whitespace, or its trimmed form
  starts with \<^verbatim>\<open>at\<close> and one whitespace character of any kind, with \<^verbatim>\<open>Caused by\<close>, with
  \<^verbatim>\<open>Traceback\<close>, or with \<^verbatim>\<open>File\<close>, one or more whitespace characters and a double
  quote. The line \<^verbatim>\<open>  ERROR retrying\<close> is both, hence a continuation.
\<close>

theorem handleLine_grouping:
  "(currentEntry s = None \<longrightarrow>
      handleLine line s
        = s\<lparr>lineNumber := lineNumber s + 1, currentEntry := Some (lineNumber s + 1, [line])\<rparr>)
   \<and> (currentEntry s = Some (startLine, lines) \<longrightarrow>
        lineNumber (handleLine line s) = lineNumber s + 1
        \<and> (if isEntryStart line \<and> \<not> isContinuationLine line
           then entries (handleLine line s)
                  = entries s @ [\<lparr>lineStart = startLine, lineEnd = startLine + length lines - 1,
                                   text' = join_nl lines, severity = detectSeverity (hd lines),
                                   timestamp = detectTimestamp (hd lines)\<rparr>]
                \<and> currentEntry (handleLine line s) = Some (lineNumber s + 1, [line])
           else entries (handleLine line s) = entries s
                \<and> currentEntry (handleLine line s) = Some (startLine, lines @ [line])))
   \<and> (isEntryStart line \<longleftrightarrow>
        detectTimestamp line \<noteq> None \<or> detectSeverity line \<noteq> None
        \<or> (\<exists>ws r. list_all is_space ws \<and> line = ws @ 0x7B # r))
   \<and> (isContinuationLine line \<longleftrightarrow>
        trim line = []
        \<or> (\<exists>c r. line = c # r \<and> is_space c)
        \<or> (\<exists>w r. is_space w \<and> trim line = ascii ''at'' @ w # r)
        \<or> prefix (ascii ''Caused by'') (trim line)
        \<or> prefix (ascii ''Traceback'') (trim line)
        \<or> (\<exists>ws r. ws \<noteq> [] \<and> list_all is_space ws \<and> trim line = ascii ''File'' @ ws @ 0x22 # r))
   \<and> isEntryStart (ascii ''  ERROR retrying'') \<and> isContinuationLine (ascii ''  ERROR retrying'')"
proof -
  have a: "currentEntry s = None \<longrightarrow>
      handleLine line s
        = s\<lparr>lineNumber := lineNumber s + 1, currentEntry := Some (lineNumber s + 1, [line])\<rparr>"
    by (simp add: handleLine_def Let_def)
  have b: "currentEntry s = Some (startLine, lines) \<longrightarrow>
        lineNumber (handleLine line s) = lineNumber s + 1
        \<and> (if isEntryStart line \<and> \<not> isContinuationLine line
           then entries (handleLine line s)
                  = entries s @ [\<lparr>lineStart = startLine, lineEnd = startLine + length lines - 1,
                                   text' = join_nl lines, severity = detectSeverity (hd lines),
                                   timestamp = detectTimestamp (hd lines)\<rparr>]
                \<and> currentEntry (handleLine line s) = Some (lineNumber s + 1, [line])
           else entries (handleLine line s) = entries s
                \<and> currentEntry (handleLine line s) = Some (startLine, lines @ [line]))"
    by (simp add: handleLine_def finalizeEntry_def Let_def)
  have c: "isEntryStart line \<longleftrightarrow>
        detectTimestamp line \<noteq> None \<or> detectSeverity line \<noteq> None
        \<or> (\<exists>ws r. list_all is_space ws \<and> line = ws @ 0x7B # r)"
    by (simp only: isEntryStart_def isJsonStart_iff)
  show ?thesis
    using a b c isContinuationLine_iff [of line] retry_line_facts by blast
qed

theorem handleLine_grouping_witness:
  "currentEntry init_pstate = None
   \<and> currentEntry (handleLine (ascii ''INFO boot'') init_pstate) = Some (1, [ascii ''INFO boot''])
   \<and> isEntryStart (ascii ''ERROR boom'') \<and> \<not> isContinuationLine (ascii ''ERROR boom'')
   \<and> entries (handleLine (ascii ''ERROR boom'') (handleLine (ascii ''INFO boot'') init_pstate))
       = [\<lparr>lineStart = 1, lineEnd = 1, text' = ascii ''INFO boot'',
           severity = Some (ascii ''INFO''), timestamp = None\<rparr>]
   \<and> currentEntry (handleLine (ascii ''ERROR boom'') (handleLine (ascii ''INFO boot'') init_pstate))
       = Some (2, [ascii ''ERROR boom''])
   \<and> isEntryStart (ascii ''  ERROR retrying'') \<and> isContinuationLine (ascii ''  ERROR retrying'')
   \<and> entries (handleLine (ascii ''  ERROR retrying'') (handleLine (ascii ''INFO boot'') init_pstate)) = []
   \<and> currentEntry (handleLine (ascii ''  ERROR retrying'') (handleLine (ascii ''INFO boot'') init_pstate))
       = Some (1, [ascii ''INFO boot'', ascii ''  ERROR retrying''])"
proof -
  have s1: "handleLine (ascii ''INFO boot'') init_pstate
            = init_pstate\<lparr>lineNumber := 1, currentEntry := Some (1, [ascii ''INFO boot''])\<rparr>"
    using handleLine_grouping [of init_pstate "ascii ''INFO boot''"]
    by (simp add: init_pstate_def)
  have i0: "entries init_pstate = []" "currentEntry init_pstate = None"
    by (simp_all add: init_pstate_def)
  show ?thesis
    unfolding s1
    using handleLine_grouping [of "init_pstate\<lparr>lineNumber := 1, currentEntry := Some (1, [ascii ''INFO boot''])\<rparr>"
            "ascii ''ERROR boom''" 1 "[ascii ''INFO boot'']"]
          handleLine_grouping [of "init_pstate\<lparr>lineNumber := 1, currentEntry := Some (1, [ascii ''INFO boot''])\<rparr>"
            "ascii ''  ERROR retrying''" 1 "[ascii ''INFO boot'']"]
          error_line_facts retry_line_facts
    by (simp add: i0)
qed

lemma scenario_text:
  "whole_text (ascii ''2026-01-03T06:29:46.882Z TRACE hello'' @ [0x0A] @ ascii ''world'' @ [0x0A]
                @ ascii ''2026-01-03T06:29:47.000Z ERROR boom'' @ [0x0A])
   = ascii ''2026-01-03T06:29:46.882Z TRACE hello'' @ [LF] @ ascii ''world'' @ [LF]
                @ ascii ''2026-01-03T06:29:47.000Z ERROR boom'' @ [LF]"
  by code_simp

lemma scenario_lines:
  "physical_lines (ascii ''2026-01-03T06:29:46.882Z TRACE hello'' @ [LF] @ ascii ''world'' @ [LF]
                @ ascii ''2026-01-03T06:29:47.000Z ERROR boom'' @ [LF])
   = [ascii ''2026-01-03T06:29:46.882Z TRACE hello'', ascii ''world'',
      ascii ''2026-01-03T06:29:47.000Z ERROR boom'']"
  by code_simp

lemma scenario_line1:
  "detectSeverity (ascii ''2026-01-03T06:29:46.882Z TRACE hello'') = Some (ascii ''TRACE'')"
  "detectTimestamp (ascii ''2026-01-03T06:29:46.882Z TRACE hello'') = Some (ascii ''2026-01-03T06:29:46.882'')"
  by code_simp+

lemma scenario_line2: "isEntryStart (ascii ''world'') = False"
  by code_simp

lemma scenario_line3:
  "isEntryStart (ascii ''2026-01-03T06:29:47.000Z ERROR boom'') = True"
  "isContinuationLine (ascii ''2026-01-03T06:29:47.000Z ERROR boom'') = False"
  "detectSeverity (ascii ''2026-01-03T06:29:47.000Z ERROR boom'') = Some (ascii ''ERROR'')"
  "detectTimestamp (ascii ''2026-01-03T06:29:47.000Z ERROR boom'') = Some (ascii ''2026-01-03T06:29:47.000'')"
  by code_simp+

lemma join_nl_two: "join_nl [a, b] = a @ [LF] @ b"
  by simp

text \<open>
  Claim C3. The three-line input of the scenario (a timestamped TRACE line, the line
  \<^verbatim>\<open>world\<close>, a timestamped ERROR line, each ended by a line feed) yields exactly two
  entries: lines 1 to 2 with the text of both lines joined by a line feed, severity TRACE
  and timestamp \<^verbatim>\<open>2026-01-03T06:29:46.882\<close>; and line 3 with severity ERROR.
\<close>

theorem scenario_two_entries:
  "done_payload (onmessage (Parse
      \<lparr>contents = ascii ''2026-01-03T06:29:46.882Z TRACE hello'' @ [0x0A] @ ascii ''world'' @ [0x0A]
                @ ascii ''2026-01-03T06:29:47.000Z ERROR boom'' @ [0x0A],
       read_error = (\<lambda>_. None)\<rparr>))
   = Some ([\<lparr>lineStart = 1, lineEnd = 2,
             text' = ascii ''2026-01-03T06:29:46.882Z TRACE hello'' @ [LF] @ ascii ''world'',
             severity = Some (ascii ''TRACE''),
             timestamp = Some (ascii ''2026-01-03T06:29:46.882'')\<rparr>,
            \<lparr>lineStart = 3, lineEnd = 3,
             text' = ascii ''2026-01-03T06:29:47.000Z ERROR boom'',
             severity = Some (ascii ''ERROR''),
             timestamp = Some (ascii ''2026-01-03T06:29:47.000'')\<rparr>],
           \<lparr>s_bytesProcessed = 79, s_totalBytes = 79, s_lines = 3, s_entries = 2\<rparr>)"
proof -
  define bs :: "byte list" where
    "bs = ascii ''2026-01-03T06:29:46.882Z TRACE hello'' @ [0x0A] @ ascii ''world'' @ [0x0A]
                @ ascii ''2026-01-03T06:29:47.000Z ERROR boom'' @ [0x0A]"
  define tx :: jsstring where
    "tx = ascii ''2026-01-03T06:29:46.882Z TRACE hello'' @ [LF] @ ascii ''world'' @ [LF]
                @ ascii ''2026-01-03T06:29:47.000Z ERROR boom'' @ [LF]"
  have wt: "whole_text bs = tx" unfolding bs_def tx_def by (rule scenario_text)
  have pl: "physical_lines tx = [ascii ''2026-01-03T06:29:46.882Z TRACE hello'', ascii ''world'',
      ascii ''2026-01-03T06:29:47.000Z ERROR boom'']"
    unfolding tx_def by (rule scenario_lines)
  have len: "length bs = 79" by (simp add: bs_def)
  have seg: "segment tx = init_pstate\<lparr>entries :=
          [\<lparr>lineStart = 1, lineEnd = 2,
             text' = ascii ''2026-01-03T06:29:46.882Z TRACE hello'' @ [LF] @ ascii ''world'',
             severity = Some (ascii ''TRACE''),
             timestamp = Some (ascii ''2026-01-03T06:29:46.882'')\<rparr>,
            \<lparr>lineStart = 3, lineEnd = 3,
             text' = ascii ''2026-01-03T06:29:47.000Z ERROR boom'',
             severity = Some (ascii ''ERROR''),
             timestamp = Some (ascii ''2026-01-03T06:29:47.000'')\<rparr>], lineNumber := 3\<rparr>"
    by (simp add: segment_def pl init_pstate_def
          handleLine_def finalizeEntry_def Let_def scenario_line1 scenario_line2 scenario_line3)
  have K: "0 < SLICE_SIZE" by (simp add: SLICE_SIZE_def)
  have "done_payload (onmessageWith SLICE_SIZE (Parse \<lparr>contents = bs, read_error = (\<lambda>_. None)\<rparr>))
        = Some (spec_result bs)"
    using done_payload_readable [OF K, of "\<lparr>contents = bs, read_error = (\<lambda>_. None)\<rparr>"] by simp
  then show ?thesis
    unfolding onmessage_def bs_def [symmetric]
    by (simp add: spec_result_def wt seg len init_pstate_def)
qed

lemma canon_upper_word: "is_upper (canonicalize c) \<Longrightarrow> is_word c"
  by (cases "0x61 \<le> c \<and> c \<le> 0x7A") (auto simp: canonicalize_def is_upper_def is_word_def)

lemma canon_of_upper: "is_upper u \<Longrightarrow> canonicalize u = u"
proof -
  assume u: "is_upper u"
  have "\<not> (0x61 \<le> u)"
  proof
    assume "0x61 \<le> u"
    moreover have "u \<le> 0x5A" using u by (simp add: is_upper_def)
    ultimately have "(0x61 :: cu) \<le> 0x5A" by (rule order_trans)
    then show False by simp
  qed
  then show ?thesis by (simp add: canonicalize_def)
qed

lemma tokens_all_upper: "list_all (\<lambda>tok. tok \<noteq> [] \<and> list_all is_upper tok) SEVERITY_TOKENS"
  by code_simp

lemma token_upper:
  assumes "tok \<in> set SEVERITY_TOKENS"
  shows "tok \<noteq> []" and "list_all is_upper tok" and "map canonicalize tok = tok"
proof -
  from assms tokens_all_upper show ne: "tok \<noteq> []" and up: "list_all is_upper tok"
    by (auto simp: list_all_iff)
  show "map canonicalize tok = tok"
    using up by (induction tok) (simp_all add: canon_of_upper)
qed

lemma canon_match_words:
  assumes "list_all is_upper tok" and "map canonicalize xs = tok" and "x \<in> set xs"
  shows "is_word x"
proof -
  have "canonicalize x \<in> set tok" using assms(2,3) by auto
  then have "is_upper (canonicalize x)" using assms(1) by (simp add: list_all_iff)
  then show ?thesis by (rule canon_upper_word)
qed

lemma opt_last_simps [simp]: "opt_last [] = None" "opt_last (xs @ [x]) = Some x"
  by (simp_all add: opt_last_def)

lemma opt_hd_word: "xs \<noteq> [] \<Longrightarrow> (\<And>x. x \<in> set xs \<Longrightarrow> is_word x) \<Longrightarrow> is_word_opt (opt_hd xs)"
  by (cases xs) (simp_all add: is_word_opt_def)

lemma opt_last_word: "xs \<noteq> [] \<Longrightarrow> (\<And>x. x \<in> set xs \<Longrightarrow> is_word x) \<Longrightarrow> is_word_opt (opt_last xs)"
  by (cases xs rule: rev_cases) (simp_all add: is_word_opt_def)

lemma here_iff:
  assumes tok: "tok \<in> set SEVERITY_TOKENS"
  shows "(word_boundary p (opt_hd s) \<and> token_here tok s) \<longleftrightarrow>
         (\<not> is_word_opt p \<and> length tok \<le> length s
          \<and> map canonicalize (take (length tok) s) = tok
          \<and> \<not> is_word_opt (opt_hd (drop (length tok) s)))"
proof (cases "length tok \<le> length s \<and> map canonicalize (take (length tok) s) = tok")
  case False
  then show ?thesis by (auto simp: token_here_def token_upper(3) [OF tok])
next
  case True
  let ?m = "take (length tok) s"
  have ne: "?m \<noteq> []" using True token_upper(1) [OF tok] by auto
  have w: "\<And>x. x \<in> set ?m \<Longrightarrow> is_word x"
    using canon_match_words [OF token_upper(2) [OF tok]] True by blast
  have l: "is_word_opt (opt_last ?m)" by (rule opt_last_word [OF ne w])
  have "opt_hd s = opt_hd ?m" using ne by (cases s; cases "length tok") auto
  then have h: "is_word_opt (opt_hd s)" using opt_hd_word [OF ne w] by simp
  show ?thesis using True l h
    by (auto simp: token_here_def word_boundary_def token_upper(3) [OF tok])
qed

lemma severity_here_None:
  "severity_here p s = None \<longleftrightarrow>
     (\<forall>tok \<in> set SEVERITY_TOKENS.
        \<not> (\<not> is_word_opt p \<and> length tok \<le> length s
           \<and> map canonicalize (take (length tok) s) = tok
           \<and> \<not> is_word_opt (opt_hd (drop (length tok) s))))"
proof -
  have "severity_here p s = None \<longleftrightarrow>
          (\<forall>tok \<in> set SEVERITY_TOKENS. \<not> (word_boundary p (opt_hd s) \<and> token_here tok s))"
    by (auto simp: severity_here_def find_None_iff)
  then show ?thesis using here_iff by blast
qed

lemma severity_here_Some:
  assumes "severity_here p s = Some m"
  shows "\<exists>tok \<in> set SEVERITY_TOKENS.
           \<not> is_word_opt p \<and> length tok \<le> length s
           \<and> map canonicalize (take (length tok) s) = tok
           \<and> \<not> is_word_opt (opt_hd (drop (length tok) s))
           \<and> toUpperCase m = tok"
proof -
  from assms obtain tok where wb: "word_boundary p (opt_hd s)"
    and f: "find (\<lambda>tok. token_here tok s) SEVERITY_TOKENS = Some tok"
    and m: "m = take (length tok) s"
    by (auto simp: severity_here_def split: if_splits)
  from f have tok: "tok \<in> set SEVERITY_TOKENS" and th: "token_here tok s"
    by (auto simp: find_Some_iff)
  from here_iff [OF tok, of p s] wb th
  have "\<not> is_word_opt p \<and> length tok \<le> length s
          \<and> map canonicalize (take (length tok) s) = tok
          \<and> \<not> is_word_opt (opt_hd (drop (length tok) s))" by blast
  then show ?thesis using tok m by (auto simp: toUpperCase_def)
qed

lemma match_at_boundary:
  "severity_match_at (pre @ suf) (length pre) tok \<longleftrightarrow>
     (tok \<in> set SEVERITY_TOKENS \<and> \<not> is_word_opt (opt_last pre) \<and> length tok \<le> length suf
      \<and> map canonicalize (take (length tok) suf) = tok
      \<and> \<not> is_word_opt (opt_hd (drop (length tok) suf)))"
  by (auto simp: severity_match_at_def toUpperCase_def)

lemma severity_from_None:
  "severity_from (opt_last pre) suf = None \<longleftrightarrow>
     (\<forall>i tok. length pre \<le> i \<longrightarrow> \<not> severity_match_at (pre @ suf) i tok)"
proof (induction suf arbitrary: pre)
  case Nil
  have "\<not> severity_match_at pre i tok" if le: "length pre \<le> i" for i tok
  proof
    assume a: "severity_match_at pre i tok"
    then have "tok \<in> set SEVERITY_TOKENS" and b: "i + length tok \<le> length pre"
      by (simp_all add: severity_match_at_def)
    then have "0 < length tok" using token_upper(1) [of tok] by simp
    with b le show False by linarith
  qed
  then show ?case by simp
next
  case (Cons c cs)
  have ih: "severity_from (Some c) cs = None \<longleftrightarrow>
     (\<forall>i tok. Suc (length pre) \<le> i \<longrightarrow> \<not> severity_match_at (pre @ c # cs) i tok)"
    using Cons.IH [of "pre @ [c]"] by simp
  have here: "severity_here (opt_last pre) (c # cs) = None \<longleftrightarrow>
     (\<forall>tok. \<not> severity_match_at (pre @ c # cs) (length pre) tok)"
    unfolding severity_here_None match_at_boundary by blast
  have sp: "(\<forall>i tok. length pre \<le> i \<longrightarrow> \<not> severity_match_at (pre @ c # cs) i tok) \<longleftrightarrow>
        (\<forall>tok. \<not> severity_match_at (pre @ c # cs) (length pre) tok)
        \<and> (\<forall>i tok. Suc (length pre) \<le> i \<longrightarrow> \<not> severity_match_at (pre @ c # cs) i tok)"
    by (metis Suc_leI le_eq_less_or_eq Suc_leD)
  show ?case
    unfolding sp using ih here by (auto split: option.splits)
qed

lemma severity_from_Some:
  "severity_from (opt_last pre) suf = Some m \<Longrightarrow>
     \<exists>i. length pre \<le> i \<and> severity_match_at (pre @ suf) i (toUpperCase m)
        \<and> (\<forall>j tok. length pre \<le> j \<longrightarrow> j < i \<longrightarrow> \<not> severity_match_at (pre @ suf) j tok)"
proof (induction suf arbitrary: pre)
  case Nil
  then show ?case by simp
next
  case (Cons c cs)
  show ?case
  proof (cases "severity_here (opt_last pre) (c # cs)")
    case (Some m')
    then have mm: "m' = m" using Cons.prems by simp
    from severity_here_Some [OF Some]
    have "severity_match_at (pre @ c # cs) (length pre) (toUpperCase m)"
      unfolding match_at_boundary mm by blast
    then show ?thesis by (intro exI [of _ "length pre"]) auto
  next
    case None
    then have "severity_from (opt_last (pre @ [c])) cs = Some m" using Cons.prems by simp
    from Cons.IH [OF this] obtain i where i: "Suc (length pre) \<le> i"
      and ma: "severity_match_at (pre @ c # cs) i (toUpperCase m)"
      and fi: "\<forall>j tok. Suc (length pre) \<le> j \<longrightarrow> j < i \<longrightarrow> \<not> severity_match_at (pre @ c # cs) j tok"
      by auto
    have here: "\<forall>tok. \<not> severity_match_at (pre @ c # cs) (length pre) tok"
      using None unfolding severity_here_None match_at_boundary by blast
    have "\<forall>j tok. length pre \<le> j \<longrightarrow> j < i \<longrightarrow> \<not> severity_match_at (pre @ c # cs) j tok"
    proof (intro allI impI)
      fix j tok assume "length pre \<le> j" "j < i"
      then show "\<not> severity_match_at (pre @ c # cs) j tok"
        using here fi by (cases "j = length pre") auto
    qed
    then show ?thesis using i ma by (intro exI [of _ i]) auto
  qed
qed

lemma detectSeverity_None:
  "detectSeverity line = None \<longleftrightarrow> (\<forall>i tok. \<not> severity_match_at line i tok)"
  using severity_from_None [of "[]" line] by (simp add: detectSeverity_def)

lemma detectSeverity_Some:
  "detectSeverity line = Some r \<Longrightarrow>
     \<exists>i. severity_match_at line i r \<and> (\<forall>j tok. j < i \<longrightarrow> \<not> severity_match_at line j tok)"
proof -
  assume "detectSeverity line = Some r"
  then obtain m where m: "severity_from None line = Some m" and r: "r = toUpperCase m"
    by (auto simp: detectSeverity_def)
  from severity_from_Some [of "[]" line m] m r show ?thesis by auto
qed

lemma shape_here_take: "length ps \<le> n \<Longrightarrow> shape_here ps (take n x) = shape_here ps x"
proof (induction ps x arbitrary: n rule: shape_here.induct)
  case (1 s)
  then show ?case by simp
next
  case (2 p ps)
  then show ?case by simp
next
  case (3 p ps c cs)
  then obtain k where "n = Suc k" by (cases n) auto
  then show ?case using 3 by simp
qed

lemma shape_here_length: "shape_here ps x \<Longrightarrow> length ps \<le> length x"
  by (induction ps x rule: shape_here.induct) auto

lemma takeWhile_all: "list_all P (takeWhile P xs)"
  by (induction xs) simp_all

lemma prefix_takeWhile_length:
  "prefix ds r \<Longrightarrow> list_all P ds \<Longrightarrow> length ds \<le> length (takeWhile P r)"
  by (induction ds arbitrary: r) (auto simp: prefix_def)

lemma timestamp_here_is:
  assumes "timestamp_here x = Some m"
  shows "shape_here TIMESTAMP_SHAPE x" and "prefix m x" and "is_timestamp m"
    and "\<And>m'. is_timestamp m' \<Longrightarrow> prefix m' x \<Longrightarrow> length m' \<le> length m"
proof -
  let ?n = "length TIMESTAMP_SHAPE"
  let ?r = "drop ?n x"
  from assms have sh: "shape_here TIMESTAMP_SHAPE x"
    and m: "m = take (?n + fraction_len ?r) x"
    by (simp_all add: timestamp_here_def split: if_splits)
  show "shape_here TIMESTAMP_SHAPE x" by (rule sh)
  show "prefix m x" by (simp add: m take_is_prefix)
  have len: "?n \<le> length x" by (rule shape_here_length [OF sh])
  have dm: "drop ?n m = take (fraction_len ?r) ?r"
    by (simp add: m drop_take)
  have fl: "fraction_len ?r \<le> length ?r"
    by (cases ?r) (auto simp: fraction_len_def intro: order_trans [OF length_takeWhile_le])
  have "?n + fraction_len ?r \<le> length x" using fl len by simp
  then have lm: "length m = ?n + fraction_len ?r"
    unfolding m by (simp only: length_take min_absorb2)
  have shm: "shape_here TIMESTAMP_SHAPE m"
    by (simp add: m shape_here_take sh)
  show "is_timestamp m"
  proof (cases ?r)
    case Nil
    then show ?thesis using shm dm by (simp add: is_timestamp_def)
  next
    case (Cons c r')
    show ?thesis
    proof (cases "c = 0x2E \<and> takeWhile is_digit r' \<noteq> []")
      case True
      then have "take (fraction_len ?r) ?r = c # takeWhile is_digit r'"
        using Cons takeWhile_eq_take [of is_digit r'] by (simp add: fraction_len_def)
      then show ?thesis using shm dm True
        by (simp add: is_timestamp_def takeWhile_all del: length_0_conv)
    next
      case False
      then have "fraction_len ?r = 0" using Cons by (auto simp: fraction_len_def)
      then show ?thesis using shm dm by (simp add: is_timestamp_def)
    qed
  qed
  fix m'
  assume it: "is_timestamp m'" and pr: "prefix m' x"
  have lm': "?n \<le> length m'" using it by (simp add: is_timestamp_def shape_here_length)
  have pd: "prefix (drop ?n m') ?r" using pr by (auto simp: prefix_def)
  show "length m' \<le> length m"
  proof (cases "drop ?n m'")
    case Nil
    then have "length m' \<le> ?n" by simp
    then show ?thesis using lm by simp
  next
    case (Cons c ds)
    then have c: "c = 0x2E" and ne: "ds \<noteq> []" and dg: "list_all is_digit ds"
      using it by (simp_all add: is_timestamp_def)
    from pd Cons obtain r' where r: "?r = c # r'" and pds: "prefix ds r'"
      by (auto simp: prefix_def)
    have le: "length ds \<le> length (takeWhile is_digit r')"
      by (rule prefix_takeWhile_length [OF pds dg])
    then have "takeWhile is_digit r' \<noteq> []" using ne by auto
    then have "fraction_len ?r = Suc (length (takeWhile is_digit r'))"
      using r c by (simp add: fraction_len_def)
    then have "length (drop ?n m') \<le> fraction_len ?r" using le Cons by simp
    then have "length m' \<le> ?n + fraction_len ?r" using lm' by simp
    then show ?thesis using lm by simp
  qed
qed

lemma detectTimestamp_None:
  "detectTimestamp s = None \<longleftrightarrow> (\<forall>i. \<not> shape_here TIMESTAMP_SHAPE (drop i s))"
proof (induction s)
  case Nil
  then show ?case by (simp add: TIMESTAMP_SHAPE_def)
next
  case (Cons c cs)
  have sp: "(\<forall>i. \<not> shape_here TIMESTAMP_SHAPE (drop i (c # cs))) \<longleftrightarrow>
            \<not> shape_here TIMESTAMP_SHAPE (c # cs) \<and> (\<forall>i. \<not> shape_here TIMESTAMP_SHAPE (drop i cs))"
  proof
    assume a: "\<forall>i. \<not> shape_here TIMESTAMP_SHAPE (drop i (c # cs))"
    have "\<not> shape_here TIMESTAMP_SHAPE (drop 0 (c # cs))" using a by (rule spec)
    moreover have "\<not> shape_here TIMESTAMP_SHAPE (drop (Suc i) (c # cs))" for i using a by (rule spec)
    ultimately show "\<not> shape_here TIMESTAMP_SHAPE (c # cs) \<and> (\<forall>i. \<not> shape_here TIMESTAMP_SHAPE (drop i cs))"
      by simp
  next
    assume a: "\<not> shape_here TIMESTAMP_SHAPE (c # cs) \<and> (\<forall>i. \<not> shape_here TIMESTAMP_SHAPE (drop i cs))"
    show "\<forall>i. \<not> shape_here TIMESTAMP_SHAPE (drop i (c # cs))"
    proof
      fix i show "\<not> shape_here TIMESTAMP_SHAPE (drop i (c # cs))" using a by (cases i) simp_all
    qed
  qed
  have "timestamp_here (c # cs) = None \<longleftrightarrow> \<not> shape_here TIMESTAMP_SHAPE (c # cs)"
    by (simp add: timestamp_here_def)
  then show ?case unfolding sp using Cons.IH by (auto split: option.splits)
qed

lemma detectTimestamp_Some:
  "detectTimestamp s = Some m \<Longrightarrow>
     \<exists>i. timestamp_here (drop i s) = Some m \<and> (\<forall>j<i. \<not> shape_here TIMESTAMP_SHAPE (drop j s))"
proof (induction s)
  case Nil
  then show ?case by simp
next
  case (Cons c cs)
  show ?case
  proof (cases "timestamp_here (c # cs)")
    case (Some m')
    then have "timestamp_here (drop 0 (c # cs)) = Some m" using Cons.prems by simp
    then show ?thesis by (intro exI [of _ 0]) simp
  next
    case None
    then have ns: "\<not> shape_here TIMESTAMP_SHAPE (c # cs)" by (simp add: timestamp_here_def split: if_splits)
    from None Cons.prems have "detectTimestamp cs = Some m" by simp
    from Cons.IH [OF this] obtain i where i: "timestamp_here (drop i cs) = Some m"
      and f: "\<forall>j<i. \<not> shape_here TIMESTAMP_SHAPE (drop j cs)" by blast
    have "\<forall>j<Suc i. \<not> shape_here TIMESTAMP_SHAPE (drop j (c # cs))"
    proof (intro allI impI)
      fix j assume "j < Suc i"
      then show "\<not> shape_here TIMESTAMP_SHAPE (drop j (c # cs))" using ns f by (cases j) simp_all
    qed
    then show ?thesis using i by (intro exI [of _ "Suc i"]) simp
  qed
qed

lemma classifying_init: "classifying init_pstate"
  by (simp add: classifying_def init_pstate_def)

lemma classifying_finalize:
  assumes "classifying s"
  shows "classifying (finalizeEntry s)"
proof (cases "currentEntry s")
  case None
  then show ?thesis using assms by (simp add: finalizeEntry_def)
next
  case (Some p)
  obtain st ls where p: "p = (st, ls)" by (cases p)
  from assms Some p have ne: "ls \<noteq> []" and nl: "LF \<notin> \<Union> (set (map set ls))"
    and ce: "list_all classified (entries s)"
    by (simp_all add: classifying_def)
  have "split_nl (join_nl ls) = ls" by (rule split_nl_join [OF ne nl])
  then show ?thesis using ce
    by (simp add: finalizeEntry_def Some p classifying_def classified_def)
qed

lemma classifying_handleLine:
  assumes t: "classifying s" and l: "LF \<notin> set line"
  shows "classifying (handleLine line s)"
proof (cases "currentEntry s")
  case None
  then show ?thesis using t l by (simp add: handleLine_def classifying_def Let_def)
next
  case (Some p)
  obtain st ls where p: "p = (st, ls)" by (cases p)
  show ?thesis
  proof (cases "isEntryStart line \<and> \<not> isContinuationLine line")
    case True
    have "classifying (finalizeEntry s)" by (rule classifying_finalize [OF t])
    moreover have "entries (finalizeEntry (s\<lparr>lineNumber := Suc (lineNumber s)\<rparr>)) = entries (finalizeEntry s)"
      by (simp add: finalizeEntry_def split: option.splits prod.splits)
    ultimately show ?thesis using True Some p l
      by (simp add: handleLine_def classifying_def Let_def)
  next
    case False
    then show ?thesis using t l Some p by (auto simp add: handleLine_def classifying_def Let_def)
  qed
qed

lemma classifying_feed: "classifying s \<Longrightarrow> LF \<notin> \<Union> (set (map set ls)) \<Longrightarrow> classifying (feed ls s)"
  by (induction ls arbitrary: s) (simp_all add: classifying_handleLine)

lemma segment_classified: "list_all classified (entries (segment t))"
proof -
  have "classifying (feed (physical_lines t) init_pstate)"
    by (rule classifying_feed [OF classifying_init physical_lines_no_LF])
  from classifying_finalize [OF this] show ?thesis
    by (simp add: segment_def classifying_def)
qed

lemma shape_here_append: "shape_here ps m \<Longrightarrow> shape_here ps (m @ z)"
  by (induction ps m rule: shape_here.induct) auto

lemma shape_iff_timestamp:
  "shape_here TIMESTAMP_SHAPE x \<longleftrightarrow> (\<exists>m. is_timestamp m \<and> prefix m x)"
proof
  assume sh: "shape_here TIMESTAMP_SHAPE x"
  have "is_timestamp (take (length TIMESTAMP_SHAPE) x)"
    using sh shape_here_length [OF sh] by (simp add: is_timestamp_def shape_here_take)
  then show "\<exists>m. is_timestamp m \<and> prefix m x" using take_is_prefix by blast
next
  assume "\<exists>m. is_timestamp m \<and> prefix m x"
  then obtain m z where "shape_here TIMESTAMP_SHAPE m" "x = m @ z"
    by (auto simp: is_timestamp_def prefix_def)
  then show "shape_here TIMESTAMP_SHAPE x" by (simp add: shape_here_append)
qed

lemma fatal_line_facts:
  "detectSeverity (ascii ''a fatal x'') = Some (ascii ''FATAL'')"
  "detectTimestamp (ascii ''a fatal x'') = None"
  "detectTimestamp (ascii ''x 2026-01-03 06:29:46.5 y'') = Some (ascii ''2026-01-03 06:29:46.5'')"
  "detectSeverity (ascii ''x 2026-01-03 06:29:46.5 y'') = None"
  by code_simp+

lemma fatal_file_result:
  "spec_result (ascii ''a fatal x'' @ [0x0A] @ ascii ''  no INFO here'')
   = ([\<lparr>lineStart = 1, lineEnd = 2,
        text' = ascii ''a fatal x'' @ [0x0A] @ ascii ''  no INFO here'',
        severity = Some (ascii ''FATAL''), timestamp = None\<rparr>],
      \<lparr>s_bytesProcessed = 24, s_totalBytes = 24, s_lines = 2, s_entries = 1\<rparr>)"
  by code_simp

text \<open>
  Claim C4. Every entry of a completed parse has the severity and the timestamp that
  \<^verbatim>\<open>detectSeverity\<close> and \<^verbatim>\<open>detectTimestamp\<close> find on the first line of its text; later
  lines play no part. The severity is absent exactly when no token of ERROR, WARN,
  WARNING, INFO, DEBUG, TRACE, FATAL occurs as a whole word, case ignored; otherwise it is
  the token that occurs at the first position where one does, in upper case and as written
  in the list (\<^verbatim>\<open>fatal\<close> gives FATAL). The timestamp is absent exactly when no position
  starts a text of the shape YYYY-MM-DD, T or whitespace, HH:MM:SS, optional dot and
  digits; otherwise it is the longest such text at the first position that starts one.
\<close>

theorem classification_first_line:
  "(0 < K \<longrightarrow> done_payload (onmessageWith K (Parse f)) = Some (es, st) \<longrightarrow>
      (\<forall>e \<in> set es. severity e = detectSeverity (hd (split_nl (text' e)))
                   \<and> timestamp e = detectTimestamp (hd (split_nl (text' e)))))
   \<and> (detectSeverity line = None \<longleftrightarrow> (\<forall>i tok. \<not> severity_match_at line i tok))
   \<and> (detectSeverity line = Some r \<longrightarrow>
        (\<exists>i. severity_match_at line i r \<and> (\<forall>j tok. j < i \<longrightarrow> \<not> severity_match_at line j tok)))
   \<and> (detectTimestamp line = None \<longleftrightarrow> (\<forall>i m. \<not> (is_timestamp m \<and> prefix m (drop i line))))
   \<and> (detectTimestamp line = Some m \<longrightarrow>
        (\<exists>i. is_timestamp m \<and> prefix m (drop i line)
           \<and> (\<forall>m'. is_timestamp m' \<and> prefix m' (drop i line) \<longrightarrow> length m' \<le> length m)
           \<and> (\<forall>j m'. j < i \<longrightarrow> \<not> (is_timestamp m' \<and> prefix m' (drop j line)))))
   \<and> detectSeverity (ascii ''a fatal x'') = Some (ascii ''FATAL'')"
proof -
  have p: "0 < K \<longrightarrow> done_payload (onmessageWith K (Parse f)) = Some (es, st) \<longrightarrow>
      (\<forall>e \<in> set es. severity e = detectSeverity (hd (split_nl (text' e)))
                   \<and> timestamp e = detectTimestamp (hd (split_nl (text' e))))"
  proof (intro impI)
    assume K: "0 < K" and d: "done_payload (onmessageWith K (Parse f)) = Some (es, st)"
    have "(es, st) = spec_result (contents f)" by (rule done_payload_Some [OF K d])
    then have "es = entries (segment (whole_text (contents f)))"
      by (simp add: spec_result_def Let_def)
    then have "list_all classified es" using segment_classified by simp
    then show "\<forall>e \<in> set es. severity e = detectSeverity (hd (split_nl (text' e)))
                   \<and> timestamp e = detectTimestamp (hd (split_nl (text' e)))"
      by (simp add: list_all_iff classified_def)
  qed
  have s2: "detectSeverity line = Some r \<longrightarrow>
        (\<exists>i. severity_match_at line i r \<and> (\<forall>j tok. j < i \<longrightarrow> \<not> severity_match_at line j tok))"
    using detectSeverity_Some by blast
  have t1: "detectTimestamp line = None \<longleftrightarrow> (\<forall>i m. \<not> (is_timestamp m \<and> prefix m (drop i line)))"
    unfolding detectTimestamp_None shape_iff_timestamp by blast
  have t2: "detectTimestamp line = Some m \<longrightarrow>
        (\<exists>i. is_timestamp m \<and> prefix m (drop i line)
           \<and> (\<forall>m'. is_timestamp m' \<and> prefix m' (drop i line) \<longrightarrow> length m' \<le> length m)
           \<and> (\<forall>j m'. j < i \<longrightarrow> \<not> (is_timestamp m' \<and> prefix m' (drop j line))))"
  proof
    assume "detectTimestamp line = Some m"
    from detectTimestamp_Some [OF this] obtain i where h: "timestamp_here (drop i line) = Some m"
      and f: "\<forall>j<i. \<not> shape_here TIMESTAMP_SHAPE (drop j line)" by blast
    have "\<forall>j m'. j < i \<longrightarrow> \<not> (is_timestamp m' \<and> prefix m' (drop j line))"
      using f shape_iff_timestamp by blast
    moreover have "\<forall>m'. is_timestamp m' \<and> prefix m' (drop i line) \<longrightarrow> length m' \<le> length m"
      using timestamp_here_is(4) [OF h] by blast
    ultimately show "\<exists>i. is_timestamp m \<and> prefix m (drop i line)
           \<and> (\<forall>m'. is_timestamp m' \<and> prefix m' (drop i line) \<longrightarrow> length m' \<le> length m)
           \<and> (\<forall>j m'. j < i \<longrightarrow> \<not> (is_timestamp m' \<and> prefix m' (drop j line)))"
      using timestamp_here_is(2,3) [OF h] by blast
  qed
  from p detectSeverity_None [of line] s2 t1 t2 fatal_line_facts(1) show ?thesis
    by (intro conjI) assumption+
qed

theorem classification_first_line_witness:
  "(0::nat) < 5
   \<and> done_payload (onmessageWith 5 (Parse
         \<lparr>contents = ascii ''a fatal x'' @ [0x0A] @ ascii ''  no INFO here'', read_error = (\<lambda>_. None)\<rparr>))
       = Some ([\<lparr>lineStart = 1, lineEnd = 2,
                 text' = ascii ''a fatal x'' @ [0x0A] @ ascii ''  no INFO here'',
                 severity = Some (ascii ''FATAL''), timestamp = None\<rparr>],
               \<lparr>s_bytesProcessed = 24, s_totalBytes = 24, s_lines = 2, s_entries = 1\<rparr>)
   \<and> detectSeverity (hd (split_nl (ascii ''a fatal x'' @ [0x0A] @ ascii ''  no INFO here''))) = Some (ascii ''FATAL'')
   \<and> detectSeverity (ascii ''a fatal x'') = Some (ascii ''FATAL'')
   \<and> (\<exists>i. severity_match_at (ascii ''a fatal x'') i (ascii ''FATAL'')
          \<and> (\<forall>j tok. j < i \<longrightarrow> \<not> severity_match_at (ascii ''a fatal x'') j tok))
   \<and> detectTimestamp (ascii ''a fatal x'') = None
   \<and> (\<forall>i m. \<not> (is_timestamp m \<and> prefix m (drop i (ascii ''a fatal x''))))
   \<and> detectTimestamp (ascii ''x 2026-01-03 06:29:46.5 y'') = Some (ascii ''2026-01-03 06:29:46.5'')
   \<and> (\<exists>i. is_timestamp (ascii ''2026-01-03 06:29:46.5'')
          \<and> prefix (ascii ''2026-01-03 06:29:46.5'' :: jsstring) (drop i (ascii ''x 2026-01-03 06:29:46.5 y'')))
   \<and> detectSeverity (ascii ''x 2026-01-03 06:29:46.5 y'') = None
   \<and> (\<forall>i tok. \<not> severity_match_at (ascii ''x 2026-01-03 06:29:46.5 y'') i tok)"
proof -
  define l1 :: jsstring where "l1 = ascii ''a fatal x''"
  define l2 :: jsstring where "l2 = ascii ''x 2026-01-03 06:29:46.5 y''"
  define ts :: jsstring where "ts = ascii ''2026-01-03 06:29:46.5''"
  define sv :: jsstring where "sv = ascii ''FATAL''"
  define fl where "fl = \<lparr>contents = (ascii ''a fatal x'' @ [0x0A] @ ascii ''  no INFO here'' :: byte list),
                          read_error = (\<lambda>_::nat. None :: js_exn option)\<rparr>"
  define e where "e = \<lparr>lineStart = 1, lineEnd = 2,
                 text' = ascii ''a fatal x'' @ [0x0A] @ ascii ''  no INFO here'',
                 severity = Some (ascii ''FATAL''), timestamp = None\<rparr>"
  define st where "st = \<lparr>s_bytesProcessed = 24, s_totalBytes = 24, s_lines = 2, s_entries = 1\<rparr>"
  have K: "(0::nat) < 5" by simp
  have a1: "detectSeverity l1 = Some sv" and a2: "detectTimestamp l1 = None"
    and a3: "detectTimestamp l2 = Some ts" and a4: "detectSeverity l2 = None"
    unfolding l1_def l2_def ts_def sv_def by (rule fatal_line_facts)+
  have sr: "spec_result (contents fl) = ([e], st)"
    using fatal_file_result by (simp add: fl_def e_def st_def)
  have ro: "\<And>n. read_error fl n = None" by (simp add: fl_def)
  have dp: "done_payload (onmessageWith 5 (Parse fl)) = Some ([e], st)"
    using done_payload_readable [OF K ro] sr by simp
  have c1: "severity e = detectSeverity (hd (split_nl (text' e)))"
    using classification_first_line [where K = 5 and f = fl and es = "[e]" and st = st] K dp by simp
  then have c1': "detectSeverity (hd (split_nl (ascii ''a fatal x'' @ [0x0A] @ ascii ''  no INFO here''))) = Some sv"
    by (simp add: e_def sv_def)
  have c2: "\<exists>i. severity_match_at l1 i sv \<and> (\<forall>j tok. j < i \<longrightarrow> \<not> severity_match_at l1 j tok)"
    using classification_first_line [where line = l1 and r = sv] a1 by blast
  have c3: "\<forall>i m. \<not> (is_timestamp m \<and> prefix m (drop i l1))"
    using classification_first_line [where line = l1] a2 by blast
  have c4: "\<exists>i. is_timestamp ts \<and> prefix ts (drop i l2)"
    using classification_first_line [where line = l2 and m = ts] a3 by blast
  have c5: "\<forall>i tok. \<not> severity_match_at l2 i tok"
    using classification_first_line [where line = l2] a4 by blast
  from K dp c1' a1 c2 a2 c3 a3 c4 a4 c5 show ?thesis
    unfolding l1_def l2_def ts_def sv_def fl_def e_def st_def
    by (intro conjI) assumption+
qed

lemma malformed_byte_result:
  "spec_result [0xFF]
   = ([\<lparr>lineStart = 1, lineEnd = 1, text' = [0xFFFD], severity = None, timestamp = None\<rparr>],
      \<lparr>s_bytesProcessed = 1, s_totalBytes = 1, s_lines = 1, s_entries = 1\<rparr>)"
  by code_simp

lemma malformed_byte_error_branch: "utf8_handler utf8_init 0xFF = (utf8_init, [0xFFFD])"
  by (simp add: utf8_handler_def utf8_first_def utf8_init_def)

text \<open>
  Claim C5, as stated: a byte stream that cannot be interpreted as text aborts the parse
  with an error outcome. The single byte FF is not UTF-8 (the decoder takes its error
  branch on it), yet the worker ends with the success payload: one entry whose text is
  U+FFFD. \<^verbatim>\<open>new TextDecoder()\<close> is not fatal, it replaces what it cannot decode.
\<close>

theorem malformed_bytes_counterexample:
  "utf8_handler utf8_init 0xFF = (utf8_init, [0xFFFD])
   \<and> done_payload (onmessage (Parse \<lparr>contents = [0xFF], read_error = (\<lambda>_. None)\<rparr>))
       = Some ([\<lparr>lineStart = 1, lineEnd = 1, text' = [0xFFFD], severity = None, timestamp = None\<rparr>],
               \<lparr>s_bytesProcessed = 1, s_totalBytes = 1, s_lines = 1, s_entries = 1\<rparr>)"
proof -
  have K: "0 < SLICE_SIZE" by (simp add: SLICE_SIZE_def)
  have "done_payload (onmessageWith SLICE_SIZE (Parse \<lparr>contents = [0xFF], read_error = (\<lambda>_. None)\<rparr>))
        = Some (spec_result [0xFF])"
    using done_payload_readable [OF K, of "\<lparr>contents = [0xFF], read_error = (\<lambda>_. None)\<rparr>"] by simp
  then show ?thesis
    by (simp add: onmessage_def malformed_byte_result malformed_byte_error_branch)
qed

text \<open>
  Claim C5, amended: every run of the worker on a parse request posts progress reports
  (which carry counts, never entries) and then exactly one terminal message. If the read of
  some slice is rejected, the terminal message is the error with the message of the first
  rejected read, and no entry is delivered; if every slice is read, it is the success payload
  of the whole file, whatever the bytes are: bytes that are not UTF-8 are decoded to U+FFFD
  and are not a failure.
\<close>

theorem terminal_outcome:
  "0 < K \<Longrightarrow>
   \<exists>ps. list_all is_progress ps \<and>
      ((\<forall>j. j * K < fsize f \<longrightarrow> read_error f (j * K) = None) \<and>
       onmessageWith K (Parse f)
         = Some (ps @ [DONE (fst (spec_result (contents f))) (snd (spec_result (contents f)))])
       \<or> (\<exists>i e. i * K < fsize f \<and> read_error f (i * K) = Some e
             \<and> (\<forall>j<i. read_error f (j * K) = None)
             \<and> onmessageWith K (Parse f) = Some (ps @ [ERROR (exn_message e)])))"
  by (rule onmessageWith_outcome)

theorem terminal_outcome_witness:
  "0 < SLICE_SIZE
   \<and> (\<exists>ps. list_all is_progress ps \<and>
         onmessage (Parse \<lparr>contents = [0x41],
                           read_error = (\<lambda>n. if n = 0 then Some (JsError ''NotReadableError'') else None)\<rparr>)
           = Some (ps @ [ERROR ''NotReadableError'']))
   \<and> (\<exists>ps. list_all is_progress ps \<and>
         onmessage (Parse \<lparr>contents = [0xFF], read_error = (\<lambda>_. None)\<rparr>)
           = Some (ps @ [DONE [\<lparr>lineStart = 1, lineEnd = 1, text' = [0xFFFD], severity = None, timestamp = None\<rparr>]
                           \<lparr>s_bytesProcessed = 1, s_totalBytes = 1, s_lines = 1, s_entries = 1\<rparr>]))"
proof -
  have K: "0 < SLICE_SIZE" by (simp add: SLICE_SIZE_def)
  define bad where "bad = \<lparr>contents = [0x41::byte],
               read_error = (\<lambda>n::nat. if n = 0 then Some (JsError ''NotReadableError'') else None)\<rparr>"
  define ok where "ok = \<lparr>contents = [0xFF::byte], read_error = (\<lambda>_::nat. None :: js_exn option)\<rparr>"
  have z: "i * SLICE_SIZE < 1 \<Longrightarrow> i = 0" for i
    by (cases i) (simp_all add: SLICE_SIZE_def)
  have a: "\<exists>ps. list_all is_progress ps \<and> onmessageWith SLICE_SIZE (Parse bad) = Some (ps @ [ERROR ''NotReadableError''])"
  proof -
    from terminal_outcome [OF K, of bad] obtain ps where pr: "list_all is_progress ps"
      and d: "(\<forall>j. j * SLICE_SIZE < fsize bad \<longrightarrow> read_error bad (j * SLICE_SIZE) = None) \<and>
               onmessageWith SLICE_SIZE (Parse bad)
                 = Some (ps @ [DONE (fst (spec_result (contents bad))) (snd (spec_result (contents bad)))])
             \<or> (\<exists>i e. i * SLICE_SIZE < fsize bad \<and> read_error bad (i * SLICE_SIZE) = Some e
                   \<and> (\<forall>j<i. read_error bad (j * SLICE_SIZE) = None)
                   \<and> onmessageWith SLICE_SIZE (Parse bad) = Some (ps @ [ERROR (exn_message e)]))"
      by blast
    have fs: "fsize bad = 1" by (simp add: fsize_def bad_def)
    have r0: "read_error bad 0 = Some (JsError ''NotReadableError'')" by (simp add: bad_def)
    have nall: "\<not> (\<forall>j. j * SLICE_SIZE < fsize bad \<longrightarrow> read_error bad (j * SLICE_SIZE) = None)"
    proof
      assume "\<forall>j. j * SLICE_SIZE < fsize bad \<longrightarrow> read_error bad (j * SLICE_SIZE) = None"
      then have "0 * SLICE_SIZE < fsize bad \<longrightarrow> read_error bad (0 * SLICE_SIZE) = None" by (rule spec)
      then show False by (simp add: fs r0)
    qed
    from d show ?thesis
    proof (elim disjE conjE exE)
      assume "\<forall>j. j * SLICE_SIZE < fsize bad \<longrightarrow> read_error bad (j * SLICE_SIZE) = None"
      with nall show ?thesis by (rule notE)
    next
      fix i e
      assume il: "i * SLICE_SIZE < fsize bad"
        and re: "read_error bad (i * SLICE_SIZE) = Some e"
        and out: "onmessageWith SLICE_SIZE (Parse bad) = Some (ps @ [ERROR (exn_message e)])"
      have i0: "i = 0" by (rule z) (use il fs in simp)
      have "e = JsError ''NotReadableError''" using re i0 r0 by simp
      then have "exn_message e = ''NotReadableError''" by (simp add: exn_message_def)
      then have "onmessageWith SLICE_SIZE (Parse bad) = Some (ps @ [ERROR ''NotReadableError''])"
        using out by simp
      with pr show ?thesis by (intro exI conjI)
    qed
  qed
  have b: "\<exists>ps. list_all is_progress ps \<and> onmessageWith SLICE_SIZE (Parse ok)
             = Some (ps @ [DONE [\<lparr>lineStart = 1, lineEnd = 1, text' = [0xFFFD], severity = None, timestamp = None\<rparr>]
                           \<lparr>s_bytesProcessed = 1, s_totalBytes = 1, s_lines = 1, s_entries = 1\<rparr>])"
  proof -
    from terminal_outcome [OF K, of ok] obtain ps where pr: "list_all is_progress ps"
      and d: "(\<forall>j. j * SLICE_SIZE < fsize ok \<longrightarrow> read_error ok (j * SLICE_SIZE) = None) \<and>
               onmessageWith SLICE_SIZE (Parse ok)
                 = Some (ps @ [DONE (fst (spec_result (contents ok))) (snd (spec_result (contents ok)))])
             \<or> (\<exists>i e. i * SLICE_SIZE < fsize ok \<and> read_error ok (i * SLICE_SIZE) = Some e
                   \<and> (\<forall>j<i. read_error ok (j * SLICE_SIZE) = None)
                   \<and> onmessageWith SLICE_SIZE (Parse ok) = Some (ps @ [ERROR (exn_message e)]))"
      by blast
    have rn: "read_error ok n = None" for n by (simp add: ok_def)
    have co: "contents ok = [0xFF]" by (simp add: ok_def)
    from d show ?thesis
    proof (elim disjE conjE exE)
      assume "onmessageWith SLICE_SIZE (Parse ok)
                 = Some (ps @ [DONE (fst (spec_result (contents ok))) (snd (spec_result (contents ok)))])"
      then have "onmessageWith SLICE_SIZE (Parse ok)
             = Some (ps @ [DONE [\<lparr>lineStart = 1, lineEnd = 1, text' = [0xFFFD], severity = None, timestamp = None\<rparr>]
                           \<lparr>s_bytesProcessed = 1, s_totalBytes = 1, s_lines = 1, s_entries = 1\<rparr>])"
        by (simp add: co malformed_byte_result)
      with pr show ?thesis by (intro exI conjI)
    next
      fix i e
      assume "read_error ok (i * SLICE_SIZE) = Some e"
      then show ?thesis by (simp add: rn)
    qed
  qed
  show ?thesis using K a b unfolding onmessage_def bad_def ok_def by (intro conjI)
qed

lemma euro_crlf_result:
  "spec_result [0xE2, 0x82, 0xAC, 0x0D, 0x0A, 0x62]
   = ([\<lparr>lineStart = 1, lineEnd = 2, text' = [0x20AC, 0x0A, 0x62], severity = None, timestamp = None\<rparr>],
      \<lparr>s_bytesProcessed = 6, s_totalBytes = 6, s_lines = 2, s_entries = 1\<rparr>)"
  by code_simp

text \<open>
  Claim C6. For a file whose reads succeed, the success payload (the entries and the
  counts of bytes, lines and entries) is the same for every slice size: it is the result of
  one pass over the text of the whole file. So a chunking that cuts a multi-byte character
  or a \<^verbatim>\<open>\r\n\<close> terminator in two gives what a single chunk gives.
\<close>

theorem chunking_invariance:
  "0 < K \<Longrightarrow> 0 < K' \<Longrightarrow> (\<forall>n. read_error f n = None) \<Longrightarrow>
   done_payload (onmessageWith K (Parse f)) = Some (spec_result (contents f))
   \<and> done_payload (onmessageWith K (Parse f)) = done_payload (onmessageWith K' (Parse f))"
  by (simp add: done_payload_readable)

theorem chunking_invariance_witness:
  "(0::nat) < 2 \<and> (0::nat) < 6
   \<and> (\<forall>n. read_error \<lparr>contents = [0xE2, 0x82, 0xAC, 0x0D, 0x0A, 0x62], read_error = (\<lambda>_. None)\<rparr> n = None)
   \<and> done_payload (onmessageWith 2 (Parse \<lparr>contents = [0xE2, 0x82, 0xAC, 0x0D, 0x0A, 0x62], read_error = (\<lambda>_. None)\<rparr>))
       = Some ([\<lparr>lineStart = 1, lineEnd = 2, text' = [0x20AC, 0x0A, 0x62], severity = None, timestamp = None\<rparr>],
               \<lparr>s_bytesProcessed = 6, s_totalBytes = 6, s_lines = 2, s_entries = 1\<rparr>)
   \<and> done_payload (onmessageWith 2 (Parse \<lparr>contents = [0xE2, 0x82, 0xAC, 0x0D, 0x0A, 0x62], read_error = (\<lambda>_. None)\<rparr>))
       = done_payload (onmessageWith 6 (Parse \<lparr>contents = [0xE2, 0x82, 0xAC, 0x0D, 0x0A, 0x62], read_error = (\<lambda>_. None)\<rparr>))"
  using chunking_invariance [of 2 6 "\<lparr>contents = [0xE2, 0x82, 0xAC, 0x0D, 0x0A, 0x62], read_error = (\<lambda>_. None)\<rparr>"]
  by (auto simp add: euro_crlf_result)

lemma euro_chunk_facts:
  "length (butlast (split_lines (snd (decode_stream new_TextDecoder [0xE2, 0x82, 0xAC, 0x0D, 0x0A, 0x62])))) = 1"
  "entries (feed (butlast (split_lines (snd (decode_stream new_TextDecoder [0xE2, 0x82, 0xAC, 0x0D, 0x0A, 0x62])))) init_pstate) = []"
  "currentEntry (feed (butlast (split_lines (snd (decode_stream new_TextDecoder [0xE2, 0x82, 0xAC, 0x0D, 0x0A, 0x62])))) init_pstate)
     = Some (1, [[0x20AC]])"
  "length (butlast (split_lines (snd (decode_stream new_TextDecoder [0xE2, 0x82])))) = 0"
  by code_simp+

text \<open>
  Claim C7. In the loop (the state is the one reached after the bytes processed so far, and
  the buffer is the next slice of the file), processing a chunk adds its length to the bytes
  processed and posts a progress report if and only if at least 1 MiB has been processed
  since the last report or the file is finished. The report carries the bytes processed so
  far, the size of the file, their quotient (which lies between 0 and 1), the number of
  complete lines of the text decoded so far, and the number of entries finalised when these
  lines have been grouped: the entry still open is not among them.
\<close>

theorem progress_report:
  assumes "consumed f s" and "bytesProcessed s < fsize f"
    and "buf = take K (drop (bytesProcessed s) (contents f))" and "0 < K"
  shows "bytesProcessed (chunk_step f buf s) = bytesProcessed s + length buf
       \<and> bytesProcessed (chunk_step f buf s) \<le> fsize f
       \<and> (if PROGRESS_INTERVAL_BYTES \<le> bytesProcessed (chunk_step f buf s) - lastProgressAt s
              \<or> bytesProcessed (chunk_step f buf s) = fsize f
           then posted (chunk_step f buf s) = posted s @
                  [PROGRESS \<lparr>p_bytesProcessed = bytesProcessed (chunk_step f buf s),
                             p_totalBytes = fsize f,
                             p_percent = real (bytesProcessed (chunk_step f buf s)) / real (fsize f),
                             p_lines = lineNumber (chunk_step f buf s),
                             p_entries = length (entries (chunk_step f buf s))\<rparr>]
                \<and> lastProgressAt (chunk_step f buf s) = bytesProcessed (chunk_step f buf s)
           else posted (chunk_step f buf s) = posted s
                \<and> lastProgressAt (chunk_step f buf s) = lastProgressAt s)
       \<and> 0 \<le> real (bytesProcessed (chunk_step f buf s)) / real (fsize f)
       \<and> real (bytesProcessed (chunk_step f buf s)) / real (fsize f) \<le> 1
       \<and> lineNumber (chunk_step f buf s)
           = length (butlast (split_lines (snd (decode_stream new_TextDecoder
                (take (bytesProcessed (chunk_step f buf s)) (contents f))))))
       \<and> entries (chunk_step f buf s)
           = entries (feed (butlast (split_lines (snd (decode_stream new_TextDecoder
                (take (bytesProcessed (chunk_step f buf s)) (contents f)))))) init_pstate)
       \<and> currentEntry (chunk_step f buf s)
           = currentEntry (feed (butlast (split_lines (snd (decode_stream new_TextDecoder
                (take (bytesProcessed (chunk_step f buf s)) (contents f)))))) init_pstate)
       \<and> PROGRESS_INTERVAL_BYTES = 1048576"
proof -
  let ?s = "chunk_step f buf s"
  have c': "consumed f ?s" by (rule consumed_step [OF assms(1,2,3)])
  have bp: "bytesProcessed ?s = bytesProcessed s + length buf" by (rule chunk_step_bytes)
  have le: "bytesProcessed ?s \<le> fsize f" using c' by (simp add: consumed_def)
  have pos: "0 < fsize f" using assms(2) by simp
  have lp: "lastProgressAt ?s =
              (if PROGRESS_INTERVAL_BYTES \<le> bytesProcessed ?s - lastProgressAt s \<or> fsize f \<le> bytesProcessed ?s
               then bytesProcessed ?s else lastProgressAt s)"
    by (simp add: chunk_step_def processText_eq Let_def split: prod.splits)
  have eqf: "fsize f \<le> bytesProcessed ?s \<longleftrightarrow> bytesProcessed ?s = fsize f" using le by auto
  have pct: "min 1 (real (bytesProcessed ?s) / real (fsize f)) = real (bytesProcessed ?s) / real (fsize f)"
    using le pos by (simp add: min_def)
  have rep: "if PROGRESS_INTERVAL_BYTES \<le> bytesProcessed ?s - lastProgressAt s \<or> bytesProcessed ?s = fsize f
           then posted ?s = posted s @
                  [PROGRESS \<lparr>p_bytesProcessed = bytesProcessed ?s, p_totalBytes = fsize f,
                             p_percent = real (bytesProcessed ?s) / real (fsize f),
                             p_lines = lineNumber ?s, p_entries = length (entries ?s)\<rparr>]
                \<and> lastProgressAt ?s = bytesProcessed ?s
           else posted ?s = posted s \<and> lastProgressAt ?s = lastProgressAt s"
    using chunk_step_posted [of f buf s] lp pct eqf by (simp add: bp)
  have frac: "0 \<le> real (bytesProcessed ?s) / real (fsize f)"
    "real (bytesProcessed ?s) / real (fsize f) \<le> 1"
    using le pos by simp_all
  define t where "t = snd (decode_stream new_TextDecoder (take (bytesProcessed ?s) (contents f)))"
  have co: "core ?s = core (feed (butlast (split_lines t)) init_pstate)"
    using c' by (simp add: consumed_def t_def case_prod_beta)
  have ln: "lineNumber ?s = length (butlast (split_lines t))"
    and en: "entries ?s = entries (feed (butlast (split_lines t)) init_pstate)"
    and cu: "currentEntry ?s = currentEntry (feed (butlast (split_lines t)) init_pstate)"
    using co by (simp_all add: core_def init_pstate_def)
  have iv: "PROGRESS_INTERVAL_BYTES = 1048576" by (simp add: PROGRESS_INTERVAL_BYTES_def)
  from bp le rep frac(1) frac(2) ln en cu iv show ?thesis
    unfolding t_def by (intro conjI) assumption+
qed

theorem progress_report_witness:
  "consumed \<lparr>contents = [0xE2, 0x82, 0xAC, 0x0D, 0x0A, 0x62], read_error = (\<lambda>_. None)\<rparr> init_pstate
   \<and> bytesProcessed init_pstate < fsize \<lparr>contents = [0xE2, 0x82, 0xAC, 0x0D, 0x0A, 0x62], read_error = (\<lambda>_. None)\<rparr>
   \<and> (0::nat) < 6 \<and> (0::nat) < 2
   \<and> posted (chunk_step \<lparr>contents = [0xE2, 0x82, 0xAC, 0x0D, 0x0A, 0x62], read_error = (\<lambda>_. None)\<rparr>
                [0xE2, 0x82, 0xAC, 0x0D, 0x0A, 0x62] init_pstate)
       = [PROGRESS \<lparr>p_bytesProcessed = 6, p_totalBytes = 6, p_percent = 1, p_lines = 1, p_entries = 0\<rparr>]
   \<and> currentEntry (chunk_step \<lparr>contents = [0xE2, 0x82, 0xAC, 0x0D, 0x0A, 0x62], read_error = (\<lambda>_. None)\<rparr>
                [0xE2, 0x82, 0xAC, 0x0D, 0x0A, 0x62] init_pstate)
       = Some (1, [[0x20AC]])
   \<and> posted (chunk_step \<lparr>contents = [0xE2, 0x82, 0xAC, 0x0D, 0x0A, 0x62], read_error = (\<lambda>_. None)\<rparr>
                [0xE2, 0x82] init_pstate) = []"
proof -
  define f0 where "f0 = \<lparr>contents = [0xE2, 0x82, 0xAC, 0x0D, 0x0A, 0x62 :: byte],
                          read_error = (\<lambda>_::nat. None :: js_exn option)\<rparr>"
  define b6 :: "byte list" where "b6 = [0xE2, 0x82, 0xAC, 0x0D, 0x0A, 0x62]"
  define b2 :: "byte list" where "b2 = [0xE2, 0x82]"
  have c: "consumed f0 init_pstate" by (rule consumed_init)
  have i0: "bytesProcessed init_pstate = 0" "lastProgressAt init_pstate = 0" "posted init_pstate = []"
    by (simp_all add: init_pstate_def)
  have fs: "fsize f0 = 6" by (simp add: fsize_def f0_def)
  have lt: "bytesProcessed init_pstate < fsize f0" by (simp add: i0 fs)
  have e6: "b6 = take 6 (drop (bytesProcessed init_pstate) (contents f0))"
    by (simp add: i0 f0_def b6_def)
  have e2: "b2 = take 2 (drop (bytesProcessed init_pstate) (contents f0))"
    by (simp add: i0 f0_def b2_def)
  have l6: "length b6 = 6" and l2: "length b2 = 2" by (simp_all add: b6_def b2_def)
  have t6: "take 6 (contents f0) = b6" and t2: "take 2 (contents f0) = b2"
    by (simp_all add: f0_def b6_def b2_def)
  have bp6: "bytesProcessed (chunk_step f0 b6 init_pstate) = 6"
    using progress_report [OF c lt e6] by (simp add: i0 l6)
  have bp2: "bytesProcessed (chunk_step f0 b2 init_pstate) = 2"
    using progress_report [OF c lt e2] by (simp add: i0 l2)
  have ln6: "lineNumber (chunk_step f0 b6 init_pstate) = 1"
    and en6: "entries (chunk_step f0 b6 init_pstate) = []"
    and cu6: "currentEntry (chunk_step f0 b6 init_pstate) = Some (1, [[0x20AC]])"
    using progress_report [OF c lt e6] euro_chunk_facts(1,2,3) [folded b6_def]
    by (simp_all only: bp6 t6)
  have p6: "posted (chunk_step f0 b6 init_pstate)
            = [PROGRESS \<lparr>p_bytesProcessed = 6, p_totalBytes = 6, p_percent = 1, p_lines = 1, p_entries = 0\<rparr>]"
    using progress_report [OF c lt e6] by (simp add: bp6 fs i0 ln6 en6)
  have p2: "posted (chunk_step f0 b2 init_pstate) = []"
    using progress_report [OF c lt e2] by (simp add: bp2 fs i0 PROGRESS_INTERVAL_BYTES_def)
  show ?thesis
    using c lt p6 cu6 p2 unfolding f0_def b6_def b2_def by simp
qed

text \<open>
  Claim C8. Parsing an empty file (\<^verbatim>\<open>file.size\<close> is 0) posts exactly one message, the
  success payload with no entries, \<^verbatim>\<open>lines\<close> = 0 and \<^verbatim>\<open>bytesProcessed\<close> = 0: no progress
  report and no error, whatever the slice size.
\<close>

theorem empty_input_done:
  "contents f = [] \<Longrightarrow>
   onmessageWith K (Parse f)
     = Some [DONE [] \<lparr>s_bytesProcessed = 0, s_totalBytes = 0, s_lines = 0, s_entries = 0\<rparr>]"
proof -
  assume e: "contents f = []"
  have "chunk_loop K f init_pstate = Some (Inr init_pstate)"
    using e by (subst chunk_loop.simps) (simp add: fsize_def init_pstate_def)
  then show ?thesis
    using e
    by (simp add: onmessageWith_def parseFileWith_def fsize_def init_pstate_def
        finish_def decode_flush_def new_TextDecoder_def utf8_init_def finalizeEntry_def Let_def)
qed

theorem empty_input_done_witness:
  "onmessage (Parse \<lparr>contents = [], read_error = (\<lambda>_. None)\<rparr>)
     = Some [DONE [] \<lparr>s_bytesProcessed = 0, s_totalBytes = 0, s_lines = 0, s_entries = 0\<rparr>]"
  using empty_input_done [of "\<lparr>contents = [], read_error = (\<lambda>_. None)\<rparr>" SLICE_SIZE]
  by (simp add: onmessage_def)

text \<open>
  Claim C9, as stated: every file above 30 MiB is answered with an error message, and every
  file at or below it is handed to the worker. It fails on the page whose worker reference
  is still empty (the state before the mount effect has run): \<^verbatim>\<open>handleFile\<close> returns at
  its first line, so a file of 30 MiB + 1 byte sets no error and an empty file is not posted.
\<close>

theorem handleFile_no_worker_counterexample:
  "MAX_FILE_SIZE < fsize \<lparr>contents = replicate (Suc MAX_FILE_SIZE) 0, read_error = (\<lambda>_. None)\<rparr>
   \<and> handleFile \<lparr>contents = replicate (Suc MAX_FILE_SIZE) 0, read_error = (\<lambda>_. None)\<rparr> initial_page
       = (initial_page, None)
   \<and> error initial_page = None
   \<and> fsize \<lparr>contents = [], read_error = (\<lambda>_. None)\<rparr> \<le> MAX_FILE_SIZE
   \<and> handleFile \<lparr>contents = [], read_error = (\<lambda>_. None)\<rparr> initial_page = (initial_page, None)"
  by (simp add: handleFile_def initial_page_def fsize_def)

text \<open>
  Claim C9, amended: on a page that holds a worker, a file larger than
  \<open>30 * 1024 * 1024\<close> bytes only sets the size error and nothing is posted to the worker,
  and a file at or below that size is posted to the worker with the error cleared and the
  page marked as parsing; on a page without a worker \<^verbatim>\<open>handleFile\<close> does nothing.
\<close>

theorem handleFile_size_limit:
  "(worker pg \<longrightarrow> MAX_FILE_SIZE < fsize f \<longrightarrow>
      handleFile f pg = (pg\<lparr>error := Some (FileTooLarge (fsize f))\<rparr>, None))
   \<and> (worker pg \<longrightarrow> fsize f \<le> MAX_FILE_SIZE \<longrightarrow>
      snd (handleFile f pg) = Some (Parse f)
      \<and> error (fst (handleFile f pg)) = None \<and> isParsing (fst (handleFile f pg)))
   \<and> (\<not> worker pg \<longrightarrow> handleFile f pg = (pg, None))
   \<and> MAX_FILE_SIZE = 31457280"
  by (simp add: handleFile_def MAX_FILE_SIZE_def)

theorem handleFile_size_limit_witness:
  "worker (initial_page\<lparr>worker := True\<rparr>)
   \<and> MAX_FILE_SIZE < fsize \<lparr>contents = replicate (Suc MAX_FILE_SIZE) 0, read_error = (\<lambda>_. None)\<rparr>
   \<and> handleFile \<lparr>contents = replicate (Suc MAX_FILE_SIZE) 0, read_error = (\<lambda>_. None)\<rparr>
        (initial_page\<lparr>worker := True\<rparr>)
       = (initial_page\<lparr>worker := True, error := Some (FileTooLarge (Suc MAX_FILE_SIZE))\<rparr>, None)
   \<and> fsize \<lparr>contents = [0x41], read_error = (\<lambda>_. None)\<rparr> \<le> MAX_FILE_SIZE
   \<and> snd (handleFile \<lparr>contents = [0x41], read_error = (\<lambda>_. None)\<rparr> (initial_page\<lparr>worker := True\<rparr>))
       = Some (Parse \<lparr>contents = [0x41], read_error = (\<lambda>_. None)\<rparr>)
   \<and> \<not> worker initial_page
   \<and> handleFile \<lparr>contents = [0x41], read_error = (\<lambda>_. None)\<rparr> initial_page = (initial_page, None)"
  using handleFile_size_limit [of "initial_page\<lparr>worker := True\<rparr>"
          "\<lparr>contents = replicate (Suc MAX_FILE_SIZE) 0, read_error = (\<lambda>_. None)\<rparr>"]
        handleFile_size_limit [of "initial_page\<lparr>worker := True\<rparr>"
          "\<lparr>contents = [0x41], read_error = (\<lambda>_. None)\<rparr>"]
        handleFile_size_limit [of initial_page "\<lparr>contents = [0x41], read_error = (\<lambda>_. None)\<rparr>"]
  by (simp add: initial_page_def fsize_def)

lemma split_lines_crlf_line:
  "LF \<notin> set a \<Longrightarrow> split_lines (a @ CR # LF # b) = a # split_lines b"
proof (induction a)
  case Nil
  then show ?case by simp
next
  case (Cons c cs)
  have nb: "\<not> (c = CR \<and> opt_hd (cs @ CR # LF # b) = Some LF)"
    using Cons.prems by (cases cs) auto
  have "c \<noteq> LF" using Cons.prems by auto
  then have "split_lines (c # cs @ CR # LF # b)
             = (case split_lines (cs @ CR # LF # b) of [] \<Rightarrow> [[c]] | l # ls \<Rightarrow> (c # l) # ls)"
    using nb by (rule split_lines_other)
  then show ?case using Cons by simp
qed

lemma split_lines_lf_line:
  "LF \<notin> set a \<Longrightarrow> a = [] \<or> last a \<noteq> CR \<Longrightarrow> split_lines (a @ LF # b) = a # split_lines b"
proof (induction a)
  case Nil
  then show ?case by simp
next
  case (Cons c cs)
  have nb: "\<not> (c = CR \<and> opt_hd (cs @ LF # b) = Some LF)"
    using Cons.prems by (cases cs) auto
  have "c \<noteq> LF" using Cons.prems by auto
  then have "split_lines (c # cs @ LF # b)
             = (case split_lines (cs @ LF # b) of [] \<Rightarrow> [[c]] | l # ls \<Rightarrow> (c # l) # ls)"
    using nb by (rule split_lines_other)
  moreover have "split_lines (cs @ LF # b) = cs # split_lines b"
    using Cons by (cases "cs = []") auto
  ultimately show ?case by simp
qed

lemma processText_line:
  "split_lines t = a # split_lines b \<Longrightarrow> processText t s = processText b (handleLine a s)"
  by (simp add: processText_eq)

lemma split_lines_strip: "split_lines t = split_nl (strip_crlf t)"
proof (induction t rule: split_lines.induct)
  case 1
  then show ?case by simp
next
  case (2 c cs)
  consider (crlf) "c = CR \<and> opt_hd cs = Some LF" | (lf) "c = LF"
    | (other) "c \<noteq> LF" "\<not> (c = CR \<and> opt_hd cs = Some LF)" by blast
  then show ?case
  proof cases
    case crlf
    then show ?thesis using "2.IH"(1) by simp
  next
    case lf
    then show ?thesis using "2.IH"(2) by simp
  next
    case other
    have "split_lines cs = split_nl (strip_crlf cs)" using "2.IH"(3) other by blast
    then show ?thesis using other by (auto simp add: split_lines_other simp del: split_lines.simps)
  qed
qed

lemma lines_of_finalize:
  assumes "collecting s"
  shows "lines_of (finalizeEntry s) = lines_of s" and "currentEntry (finalizeEntry s) = None"
proof -
  show "currentEntry (finalizeEntry s) = None"
    by (simp add: finalizeEntry_def split: option.splits prod.splits)
  show "lines_of (finalizeEntry s) = lines_of s"
  proof (cases "currentEntry s")
    case None
    then show ?thesis by (simp add: finalizeEntry_def)
  next
    case (Some p)
    obtain st ls where p: "p = (st, ls)" by (cases p)
    from assms Some p have ne: "ls \<noteq> []" and nl: "LF \<notin> \<Union> (set (map set ls))"
      by (simp_all add: collecting_def)
    have "split_nl (join_nl ls) = ls" by (rule split_nl_join [OF ne nl])
    then show ?thesis by (simp add: finalizeEntry_def Some p lines_of_def)
  qed
qed

lemma lines_of_handleLine:
  assumes c: "collecting s" and l: "LF \<notin> set line"
  shows "lines_of (handleLine line s) = lines_of s @ [line]" and "collecting (handleLine line s)"
proof -
  have fe: "entries (finalizeEntry (s\<lparr>lineNumber := Suc (lineNumber s)\<rparr>)) = entries (finalizeEntry s)"
    by (simp add: finalizeEntry_def split: option.splits prod.splits)
  show "collecting (handleLine line s)"
    using c l by (auto simp add: handleLine_def collecting_def Let_def split: option.splits)
  show "lines_of (handleLine line s) = lines_of s @ [line]"
  proof (cases "currentEntry s")
    case None
    then show ?thesis by (simp add: handleLine_def lines_of_def Let_def)
  next
    case (Some p)
    obtain st ls where p: "p = (st, ls)" by (cases p)
    show ?thesis
    proof (cases "isEntryStart line \<and> \<not> isContinuationLine line")
      case True
      have "lines_of (finalizeEntry s) = lines_of s" by (rule lines_of_finalize(1) [OF c])
      moreover have "currentEntry (finalizeEntry s) = None" by (rule lines_of_finalize(2) [OF c])
      ultimately have "concat (map (\<lambda>e. split_nl (text' e)) (entries (finalizeEntry s))) = lines_of s"
        by (simp add: lines_of_def)
      then show ?thesis using True Some p fe
        by (simp add: handleLine_def lines_of_def Let_def)
    next
      case False
      then show ?thesis using Some p by (auto simp add: handleLine_def lines_of_def Let_def)
    qed
  qed
qed

lemma lines_of_feed:
  "collecting s \<Longrightarrow> LF \<notin> \<Union> (set (map set ls)) \<Longrightarrow>
   lines_of (feed ls s) = lines_of s @ ls \<and> collecting (feed ls s)"
proof (induction ls arbitrary: s)
  case Nil
  then show ?case by simp
next
  case (Cons l ls)
  have l: "LF \<notin> set l" and r: "LF \<notin> \<Union> (set (map set ls))" using Cons.prems(2) by auto
  from Cons.IH [OF lines_of_handleLine(2) [OF Cons.prems(1) l] r]
  show ?case by (simp add: lines_of_handleLine(1) [OF Cons.prems(1) l])
qed

lemma segment_lines:
  "concat (map (\<lambda>e. split_nl (text' e)) (entries (segment t))) = physical_lines t"
proof -
  have ci: "collecting init_pstate" by (simp add: collecting_def init_pstate_def)
  have li: "lines_of init_pstate = []" by (simp add: lines_of_def init_pstate_def)
  from lines_of_feed [OF ci physical_lines_no_LF, of t]
  have a: "lines_of (feed (physical_lines t) init_pstate) = physical_lines t"
    and b: "collecting (feed (physical_lines t) init_pstate)" by (simp_all add: li)
  have "lines_of (segment t) = physical_lines t"
    unfolding segment_def using lines_of_finalize(1) [OF b] a by simp
  moreover have "currentEntry (segment t) = None"
    unfolding segment_def by (rule lines_of_finalize(2) [OF b])
  ultimately show ?thesis by (simp add: lines_of_def)
qed

lemma crlf_file_facts:
  "spec_result [0x61, 0x0D, 0x0A, 0x62]
   = ([\<lparr>lineStart = 1, lineEnd = 2, text' = [0x61, 0x0A, 0x62], severity = None, timestamp = None\<rparr>],
      \<lparr>s_bytesProcessed = 4, s_totalBytes = 4, s_lines = 2, s_entries = 1\<rparr>)"
  "whole_text [0x61, 0x0D, 0x0A, 0x62] = [0x61, 0x0D, 0x0A, 0x62]"
  "physical_lines [0x61, 0x0D, 0x0A, 0x62] = [[0x61], [0x62]]"
  "strip_crlf [0x61, 0x0D, 0x0A, 0x62] = [0x61, 0x0A, 0x62]"
  by code_simp+

text \<open>
  Claim C10. A carriage return that is not directly followed by a line feed ends no line:
  a text without line feed is kept whole, with its carriage returns, as the unfinished
  trailing piece. A line ended by \<^verbatim>\<open>\r\n\<close> is handed to the grouping machine without
  the carriage return, exactly as the same line ended by \<^verbatim>\<open>\n\<close> alone. The number of
  lines handed over is the number of line feeds, whatever precedes them. The pieces of the
  split are the pieces, cut at the line feeds, of the text with the carriage return of every
  \<^verbatim>\<open>\r\n\<close> removed and every other code unit kept; and the lines of the texts of the
  entries of a completed parse, taken in order, are exactly the physical lines of the file:
  no entry's text holds the carriage return of a \<^verbatim>\<open>\r\n\<close> terminator, and the line count
  is the number of these lines.
\<close>

theorem carriage_return_handling:
  "(LF \<notin> set t \<longrightarrow> processText t s = (t, s))
   \<and> (LF \<notin> set a \<longrightarrow> processText (a @ CR # LF # b) s = processText b (handleLine a s))
   \<and> (LF \<notin> set a \<longrightarrow> (a = [] \<or> last a \<noteq> CR) \<longrightarrow>
        processText (a @ LF # b) s = processText b (handleLine a s))
   \<and> lineNumber (snd (processText t s)) = lineNumber s + count_list t LF
   \<and> split_lines t = split_nl (strip_crlf t)
   \<and> (0 < K \<longrightarrow> done_payload (onmessageWith K (Parse f)) = Some (es, st) \<longrightarrow>
        concat (map (\<lambda>e. split_nl (text' e)) es) = physical_lines (whole_text (contents f))
        \<and> (\<forall>e \<in> set es. \<forall>l \<in> set (split_nl (text' e)).
              l \<in> set (split_nl (strip_crlf (whole_text (contents f)))))
        \<and> s_lines st = length (physical_lines (whole_text (contents f))))"
proof -
  have c1: "LF \<notin> set t \<longrightarrow> processText t s = (t, s)"
    by (simp add: processText_eq split_lines_no_LF)
  have c2: "LF \<notin> set a \<longrightarrow> processText (a @ CR # LF # b) s = processText b (handleLine a s)"
    using processText_line [OF split_lines_crlf_line] by blast
  have c3: "LF \<notin> set a \<longrightarrow> (a = [] \<or> last a \<noteq> CR) \<longrightarrow>
        processText (a @ LF # b) s = processText b (handleLine a s)"
    using processText_line [OF split_lines_lf_line] by blast
  have c4: "lineNumber (snd (processText t s)) = lineNumber s + count_list t LF"
    by (simp add: processText_eq split_lines_length)
  have c5: "split_lines t = split_nl (strip_crlf t)" by (rule split_lines_strip)
  have c6: "0 < K \<longrightarrow> done_payload (onmessageWith K (Parse f)) = Some (es, st) \<longrightarrow>
        concat (map (\<lambda>e. split_nl (text' e)) es) = physical_lines (whole_text (contents f))
        \<and> (\<forall>e \<in> set es. \<forall>l \<in> set (split_nl (text' e)).
              l \<in> set (split_nl (strip_crlf (whole_text (contents f)))))
        \<and> s_lines st = length (physical_lines (whole_text (contents f)))"
  proof (intro impI)
    assume K: "0 < K" and d: "done_payload (onmessageWith K (Parse f)) = Some (es, st)"
    define w where "w = whole_text (contents f)"
    have r: "(es, st) = spec_result (contents f)" by (rule done_payload_Some [OF K d])
    then have es: "es = entries (segment w)" and n: "s_lines st = lineNumber (segment w)"
      by (simp_all add: spec_result_def Let_def w_def)
    have e1: "concat (map (\<lambda>e. split_nl (text' e)) es) = physical_lines w"
      unfolding es by (rule segment_lines)
    have sub: "set (physical_lines w) \<subseteq> set (split_lines w)"
      by (auto simp: physical_lines_def Let_def dest: in_set_butlastD)
    have e2: "\<forall>e \<in> set es. \<forall>l \<in> set (split_nl (text' e)). l \<in> set (split_nl (strip_crlf w))"
    proof (intro ballI)
      fix e l assume "e \<in> set es" "l \<in> set (split_nl (text' e))"
      then have "l \<in> set (concat (map (\<lambda>e. split_nl (text' e)) es))" by auto
      then have "l \<in> set (split_lines w)" using e1 sub by auto
      then show "l \<in> set (split_nl (strip_crlf w))" by (simp add: split_lines_strip)
    qed
    have e3: "s_lines st = length (physical_lines w)" using n by (simp add: segment_lineNumber)
    show "concat (map (\<lambda>e. split_nl (text' e)) es) = physical_lines (whole_text (contents f))
        \<and> (\<forall>e \<in> set es. \<forall>l \<in> set (split_nl (text' e)).
              l \<in> set (split_nl (strip_crlf (whole_text (contents f)))))
        \<and> s_lines st = length (physical_lines (whole_text (contents f)))"
      using e1 e2 e3 unfolding w_def by (intro conjI)
  qed
  from c1 c2 c3 c4 c5 c6 show ?thesis by (intro conjI) assumption+
qed

theorem carriage_return_handling_witness:
  "LF \<notin> set (ascii ''a'' @ [CR] @ ascii ''b'')
   \<and> processText (ascii ''a'' @ [CR] @ ascii ''b'') init_pstate = (ascii ''a'' @ [CR] @ ascii ''b'', init_pstate)
   \<and> LF \<notin> set (ascii ''a'' @ [CR] @ ascii ''b'')
   \<and> processText ((ascii ''a'' @ [CR] @ ascii ''b'') @ CR # LF # ascii ''c'') init_pstate
       = (ascii ''c'', handleLine (ascii ''a'' @ [CR] @ ascii ''b'') init_pstate)
   \<and> last (ascii ''a'' @ [CR] @ ascii ''b'') \<noteq> CR
   \<and> processText ((ascii ''a'' @ [CR] @ ascii ''b'') @ LF # ascii ''c'') init_pstate
       = (ascii ''c'', handleLine (ascii ''a'' @ [CR] @ ascii ''b'') init_pstate)
   \<and> (0::nat) < 2
   \<and> done_payload (onmessageWith 2 (Parse \<lparr>contents = [0x61, 0x0D, 0x0A, 0x62], read_error = (\<lambda>_. None)\<rparr>))
       = Some ([\<lparr>lineStart = 1, lineEnd = 2, text' = [0x61, 0x0A, 0x62], severity = None, timestamp = None\<rparr>],
               \<lparr>s_bytesProcessed = 4, s_totalBytes = 4, s_lines = 2, s_entries = 1\<rparr>)
   \<and> concat (map (\<lambda>e. split_nl (text' e))
         [\<lparr>lineStart = 1, lineEnd = 2, text' = [0x61, 0x0A, 0x62], severity = None, timestamp = None\<rparr>])
       = [[0x61], [0x62]]
   \<and> physical_lines (whole_text [0x61, 0x0D, 0x0A, 0x62]) = [[0x61], [0x62]]
   \<and> strip_crlf (whole_text [0x61, 0x0D, 0x0A, 0x62]) = [0x61, 0x0A, 0x62]"
proof -
  define a :: jsstring where "a = ascii ''a'' @ [CR] @ ascii ''b''"
  define c :: jsstring where "c = ascii ''c''"
  define fl where "fl = \<lparr>contents = [0x61, 0x0D, 0x0A, 0x62 :: byte],
                          read_error = (\<lambda>_::nat. None :: js_exn option)\<rparr>"
  define e where "e = \<lparr>lineStart = 1, lineEnd = 2, text' = [0x61, 0x0A, 0x62 :: cu],
                         severity = None, timestamp = None\<rparr>"
  define st where "st = \<lparr>s_bytesProcessed = 4, s_totalBytes = 4, s_lines = 2, s_entries = 1\<rparr>"
  have n: "LF \<notin> set a" unfolding a_def by code_simp
  have l: "last a \<noteq> CR" unfolding a_def by code_simp
  have nc: "LF \<notin> set c" unfolding c_def by code_simp
  have pc: "processText c s = (c, s)" for s
    using carriage_return_handling [of c s] nc by blast
  have w1: "processText a init_pstate = (a, init_pstate)"
    using carriage_return_handling [of a init_pstate] n by blast
  have w2: "processText (a @ CR # LF # c) init_pstate = (c, handleLine a init_pstate)"
    using carriage_return_handling [where s = init_pstate and a = a and b = c] n pc by simp
  have w3: "processText (a @ LF # c) init_pstate = (c, handleLine a init_pstate)"
    using carriage_return_handling [where s = init_pstate and a = a and b = c] n l pc by simp
  have K: "(0::nat) < 2" by simp
  have cf: "contents fl = [0x61, 0x0D, 0x0A, 0x62]" by (simp add: fl_def)
  have sr: "spec_result (contents fl) = ([e], st)"
    using crlf_file_facts(1) by (simp add: fl_def e_def st_def)
  have ro: "\<And>n. read_error fl n = None" by (simp add: fl_def)
  have dp: "done_payload (onmessageWith 2 (Parse fl)) = Some ([e], st)"
    using done_payload_readable [OF K ro] sr by simp
  have pl: "physical_lines (whole_text (contents fl)) = [[0x61], [0x62]]"
    by (simp only: cf crlf_file_facts(2,3))
  have w4: "concat (map (\<lambda>e. split_nl (text' e)) [e]) = [[0x61], [0x62]]"
    using carriage_return_handling [where K = 2 and f = fl and es = "[e]" and st = st] K dp pl
    by simp
  have w5: "physical_lines (whole_text [0x61, 0x0D, 0x0A, 0x62]) = [[0x61], [0x62]]"
    using pl by (simp only: cf)
  have w6: "strip_crlf (whole_text [0x61, 0x0D, 0x0A, 0x62]) = [0x61, 0x0A, 0x62]"
    by (simp only: crlf_file_facts(2,4))
  from n w1 n w2 l w3 K dp w4 w5 w6 show ?thesis
    unfolding a_def c_def fl_def e_def st_def by (intro conjI) assumption+
qed

end
